theory Spec2Isabelle
  imports Main "HOL-Library.Sublist"
begin

section \<open>Python values used by the program\<close>

text \<open>
  A Python \<open>str\<close> is modelled as a \<open>string\<close> whose characters are the code points
  below 256; Python integers are \<open>int\<close>.  An exception is a value of type \<open>error\<close>:
  the two exceptions the splitter itself can raise, and \<open>ServiceError\<close> for whatever an
  external collaborator (completion service, search service) raises.
\<close>

datatype error = ValueError string | IndexError | ServiceError string

definition LF :: char where "LF = CHR 0x0A"
definition CR :: char where "CR = CHR 0x0D"

text \<open>\<open>str.isspace\<close> for one character, and the line boundaries of \<open>str.splitlines\<close>.\<close>

definition is_space :: "char \<Rightarrow> bool" where
  "is_space c = (c \<in> set [CHR 0x09, CHR 0x0A, CHR 0x0B, CHR 0x0C, CHR 0x0D,
                          CHR 0x1C, CHR 0x1D, CHR 0x1E, CHR 0x1F, CHR 0x20, CHR 0x85, CHR 0xA0])"

definition is_linebreak :: "char \<Rightarrow> bool" where
  "is_linebreak c = (c \<in> set [CHR 0x0A, CHR 0x0B, CHR 0x0C, CHR 0x0D,
                              CHR 0x1C, CHR 0x1D, CHR 0x1E, CHR 0x85])"

definition lstrip :: "string \<Rightarrow> string" where
  "lstrip s = dropWhile is_space s"

definition rstrip :: "string \<Rightarrow> string" where
  "rstrip s = rev (dropWhile is_space (rev s))"

definition strip :: "string \<Rightarrow> string" where
  "strip s = lstrip (rstrip s)"

text \<open>\<open>s.lstrip(chars)\<close>: drop leading characters that occur in \<open>chars\<close>.\<close>

definition lstrip_chars :: "string \<Rightarrow> string \<Rightarrow> string" where
  "lstrip_chars chars s = dropWhile (\<lambda>c. c \<in> set chars) s"

text \<open>\<open>sep.join(xs)\<close>.\<close>

fun join :: "string \<Rightarrow> string list \<Rightarrow> string" where
  "join sep [] = []"
| "join sep [x] = x"
| "join sep (x # y # ys) = x @ sep @ join sep (y # ys)"

text \<open>\<open>s in text\<close> on strings: \<open>s\<close> occurs as a contiguous substring.\<close>

fun contains :: "string \<Rightarrow> string \<Rightarrow> bool" where
  "contains s [] = (s = [])"
| "contains s (c # cs) = (prefix s (c # cs) \<or> contains s cs)"

text \<open>
  \<open>text.split(sep)\<close> for a non-empty separator: cut at the non-overlapping occurrences
  of \<open>sep\<close>, left to right.  \<open>cur\<close> is the piece being read.  (Python raises on an
  empty separator; the caller never passes one.)
\<close>

function split_from :: "string \<Rightarrow> string \<Rightarrow> string \<Rightarrow> string list" where
  "split_from sep cur [] = [cur]"
| "split_from sep cur (c # cs) =
     (if sep \<noteq> [] \<and> prefix sep (c # cs)
      then cur # split_from sep [] (drop (length sep) (c # cs))
      else split_from sep (cur @ [c]) cs)"
  by pat_completeness auto
termination
  by (relation "measure (\<lambda>(sep, cur, rest). length rest)") auto

definition py_split :: "string \<Rightarrow> string \<Rightarrow> string list" where
  "py_split text sep = split_from sep [] text"

text \<open>\<open>text.splitlines()\<close>: \<open>\r\n\<close> is one boundary, a final boundary opens no line.\<close>

fun splitlines_from :: "string \<Rightarrow> string \<Rightarrow> string list" where
  "splitlines_from cur [] = (if cur = [] then [] else [cur])"
| "splitlines_from cur [c] = (if is_linebreak c then [cur] else [cur @ [c]])"
| "splitlines_from cur (c # d # cs) =
     (if c = CR \<and> d = LF then cur # splitlines_from [] cs
      else if is_linebreak c then cur # splitlines_from [] (d # cs)
      else splitlines_from (cur @ [c]) (d # cs))"

definition splitlines :: "string \<Rightarrow> string list" where
  "splitlines text = splitlines_from [] text"

text \<open>\<open>xs[:n]\<close>: a negative bound counts from the end.\<close>

definition slice_to :: "'a list \<Rightarrow> int \<Rightarrow> 'a list" where
  "slice_to xs n = (if 0 \<le> n then take (nat n) xs else take (length xs - nat (- n)) xs)"

text \<open>\<open>str(n)\<close> for an integer, as an f-string prints it.\<close>

fun str_nat :: "nat \<Rightarrow> string" where
  "str_nat n = (if n < 10 then [char_of (48 + n)]
                else str_nat (n div 10) @ [char_of (48 + n mod 10)])"

definition str_int :: "int \<Rightarrow> string" where
  "str_int i = (if i < 0 then CHR ''-'' # str_nat (nat (- i)) else str_nat (nat i))"

declare str_nat.simps [simp del]

section \<open>text\_splitter.py\<close>

record splitter =
  chunk_size :: int
  chunk_overlap :: int
  separators :: "string list"

text \<open>\<open>TextSplitter.__init__\<close>: the only place where the two sizes are compared.\<close>

definition TextSplitter_init :: "int \<Rightarrow> int \<Rightarrow> error + (int \<times> int)" where
  "TextSplitter_init csize overlap =
     (if overlap \<ge> csize then Inl (ValueError ''chunk_overlap must be smaller than chunk_size'')
      else Inr (csize, overlap))"

definition default_separators :: "string list" where
  "default_separators = [[LF, LF], [LF], ''.'', '','', ''>'', ''<'', '' '', '''']"

text \<open>
  \<open>RecursiveCharacterTextSplitter.__init__\<close>: the base constructor runs first;
  \<open>separators or [...]\<close> takes the default cascade for \<open>None\<close> and for an empty list.
\<close>

definition RecursiveCharacterTextSplitter_init ::
    "int \<Rightarrow> int \<Rightarrow> string list option \<Rightarrow> error + splitter" where
  "RecursiveCharacterTextSplitter_init csize overlap seps =
     (case TextSplitter_init csize overlap of
        Inl e \<Rightarrow> Inl e
      | Inr (cs, ov) \<Rightarrow>
          Inr \<lparr>chunk_size = cs, chunk_overlap = ov,
               separators = (case seps of None \<Rightarrow> default_separators
                             | Some xs \<Rightarrow> if xs = [] then default_separators else xs)\<rparr>)"

text \<open>\<open>_join_docs\<close>: the joined text, stripped; \<open>None\<close> when nothing is left.\<close>

definition join_docs :: "string list \<Rightarrow> string \<Rightarrow> string option" where
  "join_docs docs separator =
     (let text = strip (join separator docs) in if text \<noteq> [] then Some text else None)"

text \<open>
  The inner \<open>while\<close> of \<open>merge_splits\<close>: pop pieces from the front of \<open>current\<close>.
  \<open>current[0]\<close> on an empty list raises \<open>IndexError\<close>.
\<close>

fun pop_front :: "splitter \<Rightarrow> int \<Rightarrow> string list \<Rightarrow> int \<Rightarrow> error + (string list \<times> int)" where
  "pop_front sp len [] tot =
     (if tot > chunk_overlap sp \<or> (tot + len > chunk_size sp \<and> tot > 0)
      then Inl IndexError else Inr ([], tot))"
| "pop_front sp len (c # cs) tot =
     (if tot > chunk_overlap sp \<or> (tot + len > chunk_size sp \<and> tot > 0)
      then pop_front sp len cs (tot - int (length c)) else Inr (c # cs, tot))"

definition add_doc :: "string list \<Rightarrow> string option \<Rightarrow> string list" where
  "add_doc docs doc = (case doc of None \<Rightarrow> docs | Some d \<Rightarrow> docs @ [d])"

text \<open>
  The \<open>for\<close> loop of \<open>merge_splits\<close> on the state \<open>(docs, current, tot)\<close>.  The
  diagnostic \<open>print\<close> changes nothing and is left out.
\<close>

fun merge_loop ::
    "splitter \<Rightarrow> string \<Rightarrow> string list \<Rightarrow> string list \<times> string list \<times> int
       \<Rightarrow> error + (string list \<times> string list \<times> int)" where
  "merge_loop sp separator [] st = Inr st"
| "merge_loop sp separator (d # ds) (docs, current, tot) =
     (let len = int (length d) in
      if tot + len \<ge> chunk_size sp then
        (if current \<noteq> [] then
           (case pop_front sp len current tot of
              Inl e \<Rightarrow> Inl e
            | Inr (current', tot') \<Rightarrow>
                merge_loop sp separator ds
                  (add_doc docs (join_docs current separator), current' @ [d], tot' + len))
         else merge_loop sp separator ds (docs, current @ [d], tot + len))
      else merge_loop sp separator ds (docs, current @ [d], tot + len))"

definition merge_splits :: "splitter \<Rightarrow> string list \<Rightarrow> string \<Rightarrow> error + string list" where
  "merge_splits sp splits separator =
     (case merge_loop sp separator splits ([], [], 0) of
        Inl e \<Rightarrow> Inl e
      | Inr (docs, current, tot) \<Rightarrow> Inr (add_doc docs (join_docs current separator)))"

text \<open>
  The separator choice of \<open>split_text\<close>: the last separator unless an earlier one is
  empty or occurs in the text.  \<open>self.separators[-1]\<close> raises on an empty list.
\<close>

definition choose_separator :: "string list \<Rightarrow> string \<Rightarrow> error + string" where
  "choose_separator seps text =
     (if seps = [] then Inl IndexError
      else case find (\<lambda>s. s = [] \<or> contains s text) seps of
             None \<Rightarrow> Inr (last seps)
           | Some s \<Rightarrow> Inr s)"

definition raw_splits :: "string \<Rightarrow> string \<Rightarrow> string list" where
  "raw_splits text separator =
     (if separator \<noteq> [] then py_split text separator else map (\<lambda>c. [c]) text)"

text \<open>
  \<open>split_text\<close> calls itself on every piece that is not shorter than \<open>chunk_size\<close>, with
  nothing that forces the piece to be shorter than the text.  The first argument bounds
  the depth of these calls; \<open>None\<close> says the bound was reached.  \<open>split_pieces\<close> is the
  \<open>for\<close> loop over the pieces, on the state \<open>(final_chunks, good_splits)\<close>.
\<close>

fun split_text :: "nat \<Rightarrow> splitter \<Rightarrow> string \<Rightarrow> (error + string list) option"
and split_pieces ::
    "nat \<Rightarrow> splitter \<Rightarrow> string \<Rightarrow> string list \<Rightarrow> string list \<times> string list
       \<Rightarrow> (error + string list \<times> string list) option" where
  "split_text 0 sp text = None"
| "split_text (Suc n) sp text =
     (if text = [] then Some (Inr [])
      else case choose_separator (separators sp) text of
             Inl e \<Rightarrow> Some (Inl e)
           | Inr separator \<Rightarrow>
               (case split_pieces n sp separator (raw_splits text separator) ([], []) of
                  None \<Rightarrow> None
                | Some (Inl e) \<Rightarrow> Some (Inl e)
                | Some (Inr (final_chunks, good_splits)) \<Rightarrow>
                    if good_splits \<noteq> [] then
                      (case merge_splits sp good_splits separator of
                         Inl e \<Rightarrow> Some (Inl e)
                       | Inr ms \<Rightarrow> Some (Inr (final_chunks @ ms)))
                    else Some (Inr final_chunks)))"
| "split_pieces n sp separator [] st = Some (Inr st)"
| "split_pieces n sp separator (s # ss) (final_chunks, good_splits) =
     (if int (length s) < chunk_size sp
      then split_pieces n sp separator ss (final_chunks, good_splits @ [s])
      else
        (case (if good_splits \<noteq> [] then merge_splits sp good_splits separator else Inr []) of
           Inl e \<Rightarrow> Some (Inl e)
         | Inr ms \<Rightarrow>
             (case split_text n sp s of
                None \<Rightarrow> None
              | Some (Inl e) \<Rightarrow> Some (Inl e)
              | Some (Inr cs) \<Rightarrow> split_pieces n sp separator ss (final_chunks @ ms @ cs, []))))"

section \<open>deep\_research.py: data\<close>

record SearchResult =
  url :: string
  markdown :: string

record SerpQuery =
  query :: string
  research_goal :: string

record ResearchProgress =
  current_depth :: int
  total_depth :: int
  current_breadth :: int
  total_breadth :: int
  current_query :: "string option"
  total_queries :: int
  completed_queries :: int

record ResearchResult =
  learnings :: "string list"
  visited_urls :: "string list"

text \<open>
  The two collaborators are external services: what they answer may depend on anything,
  and on what was asked before.  Each is a function of an abstract world \<open>'w\<close> that it
  may change; it returns what the call returned or the exception it raised.
  \<open>completion\<close> stands for \<open>openai.ChatCompletion.create\<close> followed by the selection of
  the message content, \<open>searcher\<close> for \<open>get_firecrawl_client().search\<close>.
\<close>

type_synonym 'w completion = "'w \<Rightarrow> string \<Rightarrow> (error + string) \<times> 'w"
type_synonym 'w searcher = "'w \<Rightarrow> string \<Rightarrow> int \<Rightarrow> (error + SearchResult list) \<times> 'w"

text \<open>
  The state of a run: the world, the \<open>ResearchProgress\<close> objects created so far (an
  object's address is its index), and what the observer has been handed: the address of
  the object and its content at that moment.  The observer is taken to record what it
  is given, and neither to raise nor to write to the object.
\<close>

record 'w state =
  world :: 'w
  heap :: "ResearchProgress list"
  observed :: "(nat \<times> ResearchProgress) list"

section \<open>deep\_research.py: planner and result processor\<close>

text \<open>The \<open>for\<close> loop of \<open>generate_serp_queries\<close> over the lines of the response.\<close>

fun parse_queries :: "string list \<Rightarrow> SerpQuery list" where
  "parse_queries [] = []"
| "parse_queries (line # lines) =
     (if strip line \<noteq> []
      then \<lparr>query = strip line, research_goal = strip line\<rparr> # parse_queries lines
      else parse_queries lines)"

definition serp_prompt :: "string \<Rightarrow> int \<Rightarrow> string list \<Rightarrow> string" where
  "serp_prompt topic num_queries ls =
     ''Generate up to '' @ str_int num_queries @ '' SERP queries to research the topic.''
     @ (if ls \<noteq> [] then '' Use previous learnings: '' @ join [LF] ls else [])
     @ [LF] @ ''Topic: '' @ topic"

definition generate_serp_queries ::
    "'w completion \<Rightarrow> string \<Rightarrow> int \<Rightarrow> string list \<Rightarrow> 'w \<Rightarrow> (error + SerpQuery list) \<times> 'w" where
  "generate_serp_queries complete topic num_queries ls w =
     (case complete w (serp_prompt topic num_queries ls) of
        (Inl e, w') \<Rightarrow> (Inl e, w')
      | (Inr text, w') \<Rightarrow> (Inr (slice_to (parse_queries (splitlines text)) num_queries), w'))"

text \<open>The \<open>for\<close> loop of \<open>process_serp_result\<close>: bullet lines and follow-up lines.\<close>

fun parse_output :: "string list \<Rightarrow> string list \<times> string list" where
  "parse_output [] = ([], [])"
| "parse_output (line # lines) =
     (let (ls, follow_ups) = parse_output lines in
      if prefix ''-'' line then (lstrip_chars ''- '' line # ls, follow_ups)
      else if strip line \<noteq> [] then (ls, strip line # follow_ups)
      else (ls, follow_ups))"

definition result_prompt :: "string \<Rightarrow> SearchResult list \<Rightarrow> int \<Rightarrow> int \<Rightarrow> string" where
  "result_prompt topic result num_learnings num_follow_up_questions =
     ''Using the following SERP results for '' @ [CHR 0x27] @ topic @ [CHR 0x27]
     @ '', generate up to '' @ str_int num_learnings @ '' learnings and ''
     @ str_int num_follow_up_questions @ '' follow-up questions.'' @ [LF]
     @ join [LF] (filter (\<lambda>m. m \<noteq> []) (map markdown result))"

definition process_serp_result ::
    "'w completion \<Rightarrow> string \<Rightarrow> SearchResult list \<Rightarrow> int \<Rightarrow> int \<Rightarrow> 'w
       \<Rightarrow> (error + string list \<times> string list) \<times> 'w" where
  "process_serp_result complete topic result num_learnings num_follow_up_questions w =
     (case complete w (result_prompt topic result num_learnings num_follow_up_questions) of
        (Inl e, w') \<Rightarrow> (Inl e, w')
      | (Inr output, w') \<Rightarrow>
          (let (ls, follow_ups) = parse_output (splitlines output) in
           (Inr (slice_to ls num_learnings, slice_to follow_ups num_follow_up_questions), w')))"

section \<open>deep\_research.py: the orchestrator\<close>

text \<open>
  \<open>list(dict.fromkeys(xs))\<close>: the keys of a dictionary in insertion order; a key that is
  already there keeps its place.
\<close>

fun fromkeys_into :: "'a list \<Rightarrow> 'a list \<Rightarrow> 'a list" where
  "fromkeys_into keys [] = keys"
| "fromkeys_into keys (x # xs) = fromkeys_into (if x \<in> set keys then keys else keys @ [x]) xs"

definition dict_fromkeys :: "'a list \<Rightarrow> 'a list" where
  "dict_fromkeys xs = fromkeys_into [] xs"

text \<open>The aggregation at the end of \<open>deep_research\<close>.\<close>

definition merge_results :: "ResearchResult list \<Rightarrow> ResearchResult" where
  "merge_results results =
     \<lparr>learnings = dict_fromkeys (concat (map learnings results)),
      visited_urls = dict_fromkeys (concat (map visited_urls results))\<rparr>"

text \<open>
  \<open>report\<close>: write the update into the progress object at address \<open>a\<close>, then hand the
  object to the observer if there is one (\<open>on_progress\<close>).
\<close>

definition report ::
    "bool \<Rightarrow> nat \<Rightarrow> (ResearchProgress \<Rightarrow> ResearchProgress) \<Rightarrow> 'w state \<Rightarrow> 'w state" where
  "report on_progress a update s =
     (let p = update (heap s ! a); s' = s\<lparr>heap := (heap s)[a := p]\<rparr>
      in if on_progress then s'\<lparr>observed := observed s' @ [(a, p)]\<rparr> else s')"

definition new_progress :: "int \<Rightarrow> int \<Rightarrow> ResearchProgress" where
  "new_progress breadth depth =
     \<lparr>current_depth = depth, total_depth = depth, current_breadth = breadth,
      total_breadth = breadth, current_query = None, total_queries = 0,
      completed_queries = 0\<rparr>"

definition first_query :: "SerpQuery list \<Rightarrow> string option" where
  "first_query serp_queries = (case serp_queries of [] \<Rightarrow> None | q # _ \<Rightarrow> Some (query q))"

definition next_query :: "SerpQuery \<Rightarrow> string list \<Rightarrow> string" where
  "next_query q follow_ups =
     research_goal q @ [LF] @ ''Follow ups: '' @ join '' '' follow_ups"

text \<open>
  \<open>deep_research\<close> and its \<open>for\<close> loop over the planned queries.  Every call creates its
  own progress object; \<open>a\<close> is its address.  A search that raises is skipped by
  \<open>continue\<close> (the message it prints is left out; \<open>except Exception\<close> catches whatever
  a service raises, and an interrupt of the interpreter is outside the model); an
  exception of the completion service is not caught and ends the call.
\<close>

function deep_research ::
    "'w completion \<Rightarrow> 'w searcher \<Rightarrow> bool \<Rightarrow> string \<Rightarrow> int \<Rightarrow> int \<Rightarrow> string list \<Rightarrow> string list
       \<Rightarrow> 'w state \<Rightarrow> (error + ResearchResult) \<times> 'w state"
and research_loop ::
    "'w completion \<Rightarrow> 'w searcher \<Rightarrow> bool \<Rightarrow> nat \<Rightarrow> int \<Rightarrow> int \<Rightarrow> string list \<Rightarrow> string list
       \<Rightarrow> SerpQuery list \<Rightarrow> ResearchResult list \<Rightarrow> 'w state
       \<Rightarrow> (error + ResearchResult list) \<times> 'w state" where
  "deep_research complete search on_progress topic breadth depth ls vs s =
     (let a = length (heap s);
          s1 = s\<lparr>heap := heap s @ [new_progress breadth depth]\<rparr>
      in case generate_serp_queries complete topic breadth ls (world s1) of
           (Inl e, w) \<Rightarrow> (Inl e, s1\<lparr>world := w\<rparr>)
         | (Inr serp_queries, w) \<Rightarrow>
             (case research_loop complete search on_progress a breadth depth ls vs
                     serp_queries []
                     (report on_progress a
                        (\<lambda>p. p\<lparr>total_queries := int (length serp_queries),
                                current_query := first_query serp_queries\<rparr>)
                        (s1\<lparr>world := w\<rparr>)) of
                (Inl e, s2) \<Rightarrow> (Inl e, s2)
              | (Inr results, s2) \<Rightarrow> (Inr (merge_results results), s2)))"
| "research_loop complete search on_progress a breadth depth ls vs [] results s =
     (Inr results, s)"
| "research_loop complete search on_progress a breadth depth ls vs (q # qs) results s =
     (case search (world s) (query q) 5 of
        (Inl e, w) \<Rightarrow>
          research_loop complete search on_progress a breadth depth ls vs qs results
            (s\<lparr>world := w\<rparr>)
      | (Inr res, w) \<Rightarrow>
          (case process_serp_result complete (query q) res 3 (max 1 (breadth div 2)) w of
             (Inl e, w') \<Rightarrow> (Inl e, s\<lparr>world := w'\<rparr>)
           | (Inr (new_learnings, follow_ups), w') \<Rightarrow>
               (let all_learnings = ls @ new_learnings;
                    all_urls = vs @ filter (\<lambda>u. u \<noteq> []) (map url res);
                    new_depth = depth - 1;
                    new_breadth = max 1 (breadth div 2)
                in if new_depth > 0 then
                     (case deep_research complete search on_progress
                             (next_query q follow_ups) new_breadth new_depth
                             all_learnings all_urls (s\<lparr>world := w'\<rparr>) of
                        (Inl e, s') \<Rightarrow> (Inl e, s')
                      | (Inr sub_result, s') \<Rightarrow>
                          research_loop complete search on_progress a breadth depth ls vs qs
                            (results @ [sub_result])
                            (report on_progress a
                               (\<lambda>p. p\<lparr>completed_queries := completed_queries p + 1\<rparr>) s'))
                   else
                     research_loop complete search on_progress a breadth depth ls vs qs
                       (results @ [\<lparr>learnings = all_learnings, visited_urls = all_urls\<rparr>])
                       (report on_progress a
                          (\<lambda>p. p\<lparr>completed_queries := completed_queries p + 1\<rparr>)
                          (s\<lparr>world := w'\<rparr>)))))"
  by pat_completeness auto
termination
  by (relation "inv_image (less_than <*lex*> less_than <*lex*> less_than)
        (\<lambda>x. case x of
           Inl (complete, search, on_progress, topic, breadth, depth, rest) \<Rightarrow> (nat depth, 1, 0)
         | Inr (complete, search, on_progress, a, breadth, depth, ls, vs, qs, rest) \<Rightarrow>
             (nat depth, 0, length qs))") auto

declare deep_research.simps [simp del]
declare research_loop.simps [simp del]

section \<open>Vocabulary of the proofs\<close>

text \<open>Names for three expressions that occur in \<open>deep_research\<close>.\<close>

definition planned ::
    "bool \<Rightarrow> int \<Rightarrow> int \<Rightarrow> SerpQuery list \<Rightarrow> 'w \<Rightarrow> 'w state \<Rightarrow> 'w state" where
  "planned obs breadth depth serp_queries w s =
     report obs (length (heap s))
       (\<lambda>p. p\<lparr>total_queries := int (length serp_queries),
               current_query := first_query serp_queries\<rparr>)
       (s\<lparr>heap := heap s @ [new_progress breadth depth], world := w\<rparr>)"

definition counted :: "bool \<Rightarrow> nat \<Rightarrow> 'w state \<Rightarrow> 'w state" where
  "counted obs a s = report obs a (\<lambda>p. p\<lparr>completed_queries := completed_queries p + 1\<rparr>) s"

definition found_urls :: "SearchResult list \<Rightarrow> string list" where
  "found_urls res = filter (\<lambda>u. u \<noteq> []) (map url res)"

text \<open>
  The ordered-set rule in the specification's words: every value once, at the place of
  its first occurrence.
\<close>

function first_seen :: "'a list \<Rightarrow> 'a list" where
  "first_seen [] = []"
| "first_seen (x # xs) = x # first_seen (filter (\<lambda>y. y \<noteq> x) xs)"
  by pat_completeness auto
termination
  by (relation "measure length") (auto simp: less_Suc_eq_le)

text \<open>The breadth of a call \<open>i\<close> levels below a call of breadth \<open>b\<close>.\<close>

fun level_breadth :: "int \<Rightarrow> nat \<Rightarrow> int" where
  "level_breadth b 0 = b"
| "level_breadth b (Suc i) = level_breadth (max 1 (b div 2)) i"

text \<open>
  Every planned query's search fails, each in the world the one before left behind (also
  true when nothing is planned).
\<close>

fun all_searches_fail :: "'w searcher \<Rightarrow> 'w \<Rightarrow> SerpQuery list \<Rightarrow> bool" where
  "all_searches_fail search w [] = True"
| "all_searches_fail search w (q # qs) =
     (case search w (query q) 5 of
        (Inl e, w') \<Rightarrow> all_searches_fail search w' qs
      | (Inr res, w') \<Rightarrow> False)"

text \<open>
  The planner in the specification's words: the non-blank lines of the response, and the
  query a line becomes.
\<close>

definition usable_lines :: "string \<Rightarrow> string list" where
  "usable_lines response = filter (\<lambda>l. strip l \<noteq> []) (splitlines response)"

definition query_of_line :: "string \<Rightarrow> SerpQuery" where
  "query_of_line l = \<lparr>query = strip l, research_goal = strip l\<rparr>"

text \<open>
  A progress record carries the parameters of a call \<open>i\<close> levels below a call with
  breadth \<open>b\<close> and depth \<open>d\<close>.
\<close>

definition at_level :: "int \<Rightarrow> int \<Rightarrow> ResearchProgress \<Rightarrow> nat \<Rightarrow> bool" where
  "at_level b d p i = (total_depth p = d - int i \<and> total_breadth p = level_breadth b i)"

text \<open>
  \<open>chunk\<close> is what \<open>_join_docs\<close> makes, with the given separator, of a list of pieces
  whose lengths add up to at most \<open>chunk_size\<close>.
\<close>

definition pieces_within :: "splitter \<Rightarrow> string \<Rightarrow> string \<Rightarrow> bool" where
  "pieces_within sp separator chunk =
     (\<exists>current. chunk = strip (join separator current)
        \<and> int (sum_list (map length current)) \<le> chunk_size sp)"

section \<open>Stub collaborators for concrete runs\<close>

text \<open>
  The world counts the calls of the completion service.  The planner's answer has four
  usable lines and a blank one; every extraction yields one finding, numbered by the
  call, and one follow-up question.  The search fails for the query \<open>beta\<close>.
\<close>

definition stub_complete :: "nat completion" where
  "stub_complete w prompt =
     (if prefix ''Generate'' prompt
      then (Inr (''alpha'' @ [LF] @ ''beta'' @ [LF] @ [LF] @ '' gamma '' @ [LF] @ ''delta''), Suc w)
      else (Inr (''- finding '' @ str_nat w @ [LF] @ ''why?''), Suc w))"

definition stub_search :: "nat searcher" where
  "stub_search w q limit =
     (if q = ''beta'' then (Inl (ServiceError ''timeout''), w)
      else (Inr [\<lparr>url = ''http://'' @ q, markdown = ''text''\<rparr>], w))"

definition failing_search :: "nat searcher" where
  "failing_search w q limit = (Inl (ServiceError ''no credential''), w)"

definition start :: "nat state" where
  "start = \<lparr>world = 0, heap = [], observed = []\<rparr>"

definition qa :: SerpQuery where "qa = \<lparr>query = ''alpha'', research_goal = ''alpha''\<rparr>"
definition qb :: SerpQuery where "qb = \<lparr>query = ''beta'', research_goal = ''beta''\<rparr>"
definition qc :: SerpQuery where "qc = \<lparr>query = ''gamma'', research_goal = ''gamma''\<rparr>"
definition qd :: SerpQuery where "qd = \<lparr>query = ''delta'', research_goal = ''delta''\<rparr>"

text \<open>
  A run with breadth 4 and depth 1 from \<open>start\<close>: the state after planning, the results
  of the three queries whose search succeeds, and the final state.
\<close>

definition planned4 :: "nat state" where
  "planned4 = planned True 4 1 [qa, qb, qc, qd] 1 start"

definition results3 :: "ResearchResult list" where
  "results3 = [\<lparr>learnings = [''finding 1''], visited_urls = [''http://alpha'']\<rparr>,
               \<lparr>learnings = [''finding 2''], visited_urls = [''http://gamma'']\<rparr>,
               \<lparr>learnings = [''finding 3''], visited_urls = [''http://delta'']\<rparr>]"

definition final4 :: "nat state" where
  "final4 = snd (deep_research stub_complete stub_search True ''topic'' 4 1 [] [] start)"

text \<open>A completion service that answers with blank lines only.\<close>

definition blank_complete :: "nat completion" where
  "blank_complete w prompt = (Inr [CHR '' '', LF, LF, CHR '' ''], w)"


text \<open>
  A run with breadth 2 and depth 2 from \<open>start\<close>: its final state, the state after
  planning, what the search for \<open>alpha\<close> returns, and the state in which the call for the
  first query starts and ends.
\<close>

definition final2 :: "nat state" where
  "final2 = snd (deep_research stub_complete stub_search True ''topic'' 2 2 [] [] start)"

definition planned2 :: "nat state" where
  "planned2 = planned True 2 2 [qa, qb] 1 start"

definition res_alpha :: "SearchResult list" where
  "res_alpha = [\<lparr>url = ''http://alpha'', markdown = ''text''\<rparr>]"

definition child_start :: "nat state" where
  "child_start = planned2\<lparr>world := 2\<rparr>"

definition child_final :: "nat state" where
  "child_final = snd (deep_research stub_complete stub_search True (next_query qa [''why?'']) 1 1
                        [''finding 1''] [''http://alpha''] child_start)"




section \<open>The chunker\<close>

lemma pop_front_error: "pop_front sp len current tot = Inl e \<Longrightarrow> e = IndexError"
  by (induction current arbitrary: tot) (auto split: if_splits)

lemma merge_loop_error: "merge_loop sp separator ds st = Inl e \<Longrightarrow> e = IndexError"
proof (induction sp separator ds st rule: merge_loop.induct)
  case (1 sp separator st)
  then show ?case by simp
next
  case (2 sp separator d ds docs current tot)
  then show ?case
    by (auto simp: Let_def split: if_splits sum.splits dest: pop_front_error)
qed

lemma merge_splits_error: "merge_splits sp splits separator = Inl e \<Longrightarrow> e = IndexError"
  by (auto simp: merge_splits_def split: sum.splits dest: merge_loop_error)

lemma choose_separator_error: "choose_separator seps t = Inl e \<Longrightarrow> e = IndexError"
  by (auto simp: choose_separator_def split: if_splits option.splits)

lemma split_text_no_ValueError:
  "split_text n sp t \<noteq> Some (Inl (ValueError msg))"
  "split_pieces n sp separator ss st \<noteq> Some (Inl (ValueError msg))"
proof (induction n sp t and n sp separator ss st rule: split_text_split_pieces.induct)
  case (1 sp t)
  then show ?case by simp
next
  case (2 n sp t)
  then show ?case
    by (auto split: if_splits sum.splits option.splits
             dest: choose_separator_error merge_splits_error)
next
  case (3 n sp separator st)
  then show ?case by simp
next
  case (4 n sp separator s ss final_chunks good_splits)
  then show ?case
    by (auto split: if_splits sum.splits option.splits dest: merge_splits_error)
qed

text \<open>
  C8.  The constructors fail with \<open>ValueError\<close> exactly when \<open>chunk_overlap >= chunk_size\<close>
  and otherwise build the splitter with the two sizes as given.  Nothing else compares
  the sizes: \<open>merge_splits\<close> and \<open>split_text\<close> never answer \<open>ValueError\<close>, for any
  splitter record and any input, so the check is made at construction only.
\<close>

theorem construction_checks_overlap:
  "(TextSplitter_init csize overlap = Inr (csize, overlap)) = (overlap < csize)
   \<and> (\<exists>msg. TextSplitter_init csize overlap = Inl (ValueError msg)) = (csize \<le> overlap)
   \<and> (\<exists>seps'. RecursiveCharacterTextSplitter_init csize overlap seps =
          Inr \<lparr>chunk_size = csize, chunk_overlap = overlap, separators = seps'\<rparr>)
        = (overlap < csize)
   \<and> (\<exists>msg. RecursiveCharacterTextSplitter_init csize overlap seps = Inl (ValueError msg))
        = (csize \<le> overlap)
   \<and> (\<forall>msg. merge_splits sp splits separator \<noteq> Inl (ValueError msg))
   \<and> (\<forall>msg. split_text n sp t \<noteq> Some (Inl (ValueError msg)))"
proof -
  have "merge_splits sp splits separator \<noteq> Inl (ValueError msg)" for msg
    using merge_splits_error by blast
  moreover have "split_text n sp t \<noteq> Some (Inl (ValueError msg))" for msg
    using split_text_no_ValueError(1) by blast
  ultimately show ?thesis
    by (simp add: TextSplitter_init_def RecursiveCharacterTextSplitter_init_def)
qed

theorem construction_checks_overlap_witness:
  "(\<exists>msg. RecursiveCharacterTextSplitter_init 100 100 None = Inl (ValueError msg))
   \<and> (\<exists>seps'. RecursiveCharacterTextSplitter_init 100 20 None =
          Inr \<lparr>chunk_size = 100, chunk_overlap = 20, separators = seps'\<rparr>)
   \<and> (\<forall>msg. split_text 3 \<lparr>chunk_size = 5, chunk_overlap = 5, separators = default_separators\<rparr>
          ''ab cd'' \<noteq> Some (Inl (ValueError msg)))"
  using construction_checks_overlap [of 100 100 None]
    construction_checks_overlap [where csize = 100 and overlap = 20 and seps = None and n = 3
      and sp = "\<lparr>chunk_size = 5, chunk_overlap = 5, separators = default_separators\<rparr>"
      and t = "''ab cd''"]
  by simp

lemma default_choice_single_char: "choose_separator default_separators ''a'' = Inr []"
  by (simp add: choose_separator_def default_separators_def LF_def)

text \<open>
  C4.  With \<open>chunk_size = 1\<close> and \<open>chunk_overlap = 0\<close> (accepted by the constructor) and
  the default separators, \<open>split_text\<close> on the one-character text \<open>a\<close> calls itself on
  the same text: the only piece is the text itself, and it is not shorter than
  \<open>chunk_size\<close>.  No bound on the depth of the calls is enough for it to return.
\<close>

theorem split_text_single_char_never_returns:
  "RecursiveCharacterTextSplitter_init 1 0 None
     = Inr \<lparr>chunk_size = 1, chunk_overlap = 0, separators = default_separators\<rparr>
   \<and> split_text n \<lparr>chunk_size = 1, chunk_overlap = 0, separators = default_separators\<rparr> ''a''
       = None"
proof (induction n)
  case 0
  show ?case by (simp add: TextSplitter_init_def RecursiveCharacterTextSplitter_init_def)
next
  case (Suc n)
  then show ?case
    by (simp add: default_choice_single_char raw_splits_def)
qed

text \<open>
  C2.  With \<open>chunk_size = 10\<close> the text \<open>aaa bbb ccc\<close> is cut at the spaces into three
  pieces of length 3, each shorter than \<open>chunk_size\<close>; \<open>merge_splits\<close> adds up the
  lengths of the pieces only (9), not the separators that \<open>_join_docs\<close> puts back, and
  emits the three pieces as one chunk of length 11.
\<close>

theorem split_text_chunk_longer_than_chunk_size:
  "split_text (Suc n) \<lparr>chunk_size = 10, chunk_overlap = 0, separators = default_separators\<rparr>
      ''aaa bbb ccc'' = Some (Inr [''aaa bbb ccc''])
   \<and> raw_splits ''aaa bbb ccc'' '' '' = [''aaa'', ''bbb'', ''ccc'']
   \<and> int (length ''aaa bbb ccc'') > 10"
  by (simp add: default_separators_def choose_separator_def raw_splits_def py_split_def
        merge_splits_def join_docs_def add_doc_def strip_def lstrip_def rstrip_def
        is_space_def LF_def)

subsection \<open>What holds of the chunker\<close>

text \<open>
  With \<open>chunk_size \<ge> 2\<close> and the empty separator in the cascade (as in the default
  one), a piece that is split again is shorter than the text it came from, so
  \<open>split_text\<close> returns once the bound on the depth exceeds the length of the text.
\<close>

lemma split_from_length:
  "p \<in> set (split_from sep cur rest) \<Longrightarrow> length p \<le> length cur + length rest"
proof (induction sep cur rest rule: split_from.induct)
  case (1 sep cur)
  then show ?case by simp
next
  case (2 sep cur c cs)
  then show ?case by (auto split: if_splits)
qed

lemma contains_not_prefix: "contains sep (c # cs) \<Longrightarrow> \<not> prefix sep (c # cs) \<Longrightarrow> contains sep cs"
  by simp

lemma split_from_length_strict:
  "sep \<noteq> [] \<Longrightarrow> contains sep rest \<Longrightarrow> p \<in> set (split_from sep cur rest) \<Longrightarrow>
     length p + length sep \<le> length cur + length rest"
proof (induction sep cur rest rule: split_from.induct)
  case (1 sep cur)
  then show ?case by simp
next
  case (2 sep cur c cs)
  show ?case
  proof (cases "prefix sep (c # cs)")
    case True
    then have le: "length sep \<le> length (c # cs)" by (rule prefix_length_le)
    from 2(3,5) True have "p = cur \<or> p \<in> set (split_from sep [] (drop (length sep) (c # cs)))"
      by simp
    then show ?thesis
    proof
      assume "p = cur"
      with le show ?thesis by simp
    next
      assume "p \<in> set (split_from sep [] (drop (length sep) (c # cs)))"
      from split_from_length[OF this] le show ?thesis by simp
    qed
  next
    case False
    with 2(4) have c: "contains sep cs" by simp
    from False 2(5) have "p \<in> set (split_from sep (cur @ [c]) cs)" by simp
    from 2(2)[OF _ 2(3) c this] False show ?thesis by simp
  qed
qed

lemma choose_separator_sound:
  "[] \<in> set seps \<Longrightarrow>
     \<exists>sep. choose_separator seps t = Inr sep \<and> (sep = [] \<or> contains sep t)"
proof -
  assume e: "[] \<in> set seps"
  then have "find (\<lambda>s. s = [] \<or> contains s t) seps \<noteq> None"
    by (auto simp: find_None_iff)
  then obtain sep where f: "find (\<lambda>s. s = [] \<or> contains s t) seps = Some sep" by blast
  then have "sep = [] \<or> contains sep t" by (auto simp: find_Some_iff)
  with e f show ?thesis by (auto simp: choose_separator_def)
qed

lemma split_pieces_returns:
  "(\<And>s. s \<in> set ss \<Longrightarrow> \<not> int (length s) < chunk_size sp \<Longrightarrow> \<exists>r. split_text n sp s = Some r)
     \<Longrightarrow> \<exists>r. split_pieces n sp separator ss st = Some r"
proof (induction ss arbitrary: st)
  case Nil
  then show ?case by simp
next
  case (Cons s ss)
  obtain final_chunks good_splits where st: "st = (final_chunks, good_splits)" by (cases st)
  have rest: "\<exists>r. split_pieces n sp separator ss st' = Some r" for st'
    by (rule Cons.IH) (simp add: Cons.prems)
  show ?case
  proof (cases "int (length s) < chunk_size sp")
    case True
    with rest st show ?thesis by simp
  next
    case False
    with Cons.prems[of s] obtain r where r: "split_text n sp s = Some r" by auto
    with False rest st show ?thesis
      by (auto split: sum.splits)
  qed
qed

lemma split_text_returns:
  "2 \<le> chunk_size sp \<Longrightarrow> [] \<in> set (separators sp) \<Longrightarrow> length t < n \<Longrightarrow>
     \<exists>r. split_text n sp t = Some r"
proof (induction n arbitrary: t)
  case 0
  then show ?case by simp
next
  case (Suc n)
  show ?case
  proof (cases "t = []")
    case True
    then show ?thesis by simp
  next
    case False
    from choose_separator_sound[OF Suc.prems(2), of t] obtain sep where
      sep: "choose_separator (separators sp) t = Inr sep" "sep = [] \<or> contains sep t"
      by blast
    have piece: "\<exists>r. split_text n sp s = Some r"
      if s: "s \<in> set (raw_splits t sep)" and big: "\<not> int (length s) < chunk_size sp" for s
    proof -
      from big Suc.prems(1) have l2: "2 \<le> length s" by simp
      have "length s < n"
      proof (cases "sep = []")
        case True
        with s have "length s = 1" by (auto simp: raw_splits_def)
        with l2 show ?thesis by simp
      next
        case False
        with sep(2) s have "length s + length sep \<le> length t"
          using split_from_length_strict[of sep t s "[]"]
          by (simp add: raw_splits_def py_split_def)
        with False Suc.prems(3) show ?thesis by (cases sep) auto
      qed
      with Suc.IH[OF Suc.prems(1,2)] show ?thesis by blast
    qed
    from split_pieces_returns[of "raw_splits t sep" sp n sep "([], [])"] piece
    obtain r where "split_pieces n sp sep (raw_splits t sep) ([], []) = Some r" by blast
    with False sep(1) show ?thesis
      by (auto split: sum.splits prod.splits)
  qed
qed


text \<open>
  \<open>merge_splits\<close> keeps the sum of the lengths of the buffered pieces within
  \<open>chunk_size\<close> and leaves the separators between them out of the sum.  So every chunk
  that \<open>split_text\<close> returns was joined, with one of the splitter's separators, from
  pieces whose lengths add up to at most \<open>chunk_size\<close>; a chunk joined with the empty
  separator is itself no longer than \<open>chunk_size\<close>.
\<close>

lemma pop_front_sum:
  "pop_front sp len current tot = Inr (current', tot') \<Longrightarrow>
   tot = int (sum_list (map length current)) \<Longrightarrow>
     tot' = int (sum_list (map length current')) \<and> (tot' + len \<le> chunk_size sp \<or> tot' \<le> 0)"
proof (induction current arbitrary: tot)
  case Nil
  then show ?case by (auto split: if_splits)
next
  case (Cons c cs)
  show ?case
  proof (cases "tot > chunk_overlap sp \<or> (tot + len > chunk_size sp \<and> tot > 0)")
    case True
    with Cons.prems have "pop_front sp len cs (tot - int (length c)) = Inr (current', tot')"
      by simp
    moreover from Cons.prems have "tot - int (length c) = int (sum_list (map length cs))" by simp
    ultimately show ?thesis by (rule Cons.IH)
  next
    case False
    with Cons.prems show ?thesis by auto
  qed
qed

lemma merge_loop_sums:
  "merge_loop sp separator ds (docs, current, tot) = Inr (docs', current', tot') \<Longrightarrow>
   \<forall>d \<in> set ds. int (length d) < chunk_size sp \<Longrightarrow>
   tot = int (sum_list (map length current)) \<Longrightarrow>
   current = [] \<or> tot \<le> chunk_size sp \<Longrightarrow>
   \<forall>c \<in> set docs. pieces_within sp separator c \<Longrightarrow>
     tot' = int (sum_list (map length current'))
     \<and> (current' = [] \<or> tot' \<le> chunk_size sp)
     \<and> (\<forall>c \<in> set docs'. pieces_within sp separator c)"
proof (induction ds arbitrary: docs current tot)
  case Nil
  then show ?case by auto
next
  case (Cons d ds)
  let ?len = "int (length d)"
  from Cons.prems(2) have small: "?len < chunk_size sp"
    and rest: "\<forall>d \<in> set ds. int (length d) < chunk_size sp"
    by simp_all
  show ?case
  proof (cases "tot + ?len \<ge> chunk_size sp \<and> current \<noteq> []")
    case True
    with Cons.prems(1) obtain cur2 tot2 where
      pop: "pop_front sp ?len current tot = Inr (cur2, tot2)"
      and loop: "merge_loop sp separator ds
          (add_doc docs (join_docs current separator), cur2 @ [d], tot2 + ?len)
          = Inr (docs', current', tot')"
      by (auto simp: Let_def split: sum.splits)
    note ps = pop_front_sum[OF pop Cons.prems(3)]
    from ps have s2: "tot2 = int (sum_list (map length cur2))" by (rule conjunct1)
    from ps have ex: "tot2 + ?len \<le> chunk_size sp \<or> tot2 \<le> 0" by (rule conjunct2)
    from s2 have "0 \<le> tot2" by simp
    with ex small have le: "tot2 + ?len \<le> chunk_size sp" by auto
    from True Cons.prems(4) have "tot \<le> chunk_size sp" by simp
    with Cons.prems(3) have "pieces_within sp separator (strip (join separator current))"
      unfolding pieces_within_def by blast
    with Cons.prems(5) have docs: "\<forall>c \<in> set (add_doc docs (join_docs current separator)).
        pieces_within sp separator c"
      by (auto simp: add_doc_def join_docs_def Let_def split: option.splits if_splits)
    show ?thesis
      by (rule Cons.IH[OF loop rest _ _ docs]) (use s2 le in simp_all)
  next
    case False
    with Cons.prems(1) have loop: "merge_loop sp separator ds (docs, current @ [d], tot + ?len)
        = Inr (docs', current', tot')"
      by (auto simp: Let_def split: if_splits)
    have le: "tot + ?len \<le> chunk_size sp"
    proof (cases "current = []")
      case True
      with Cons.prems(3) small show ?thesis by simp
    next
      case c: False
      with False show ?thesis by simp
    qed
    show ?thesis
      by (rule Cons.IH[OF loop rest _ _ Cons.prems(5)]) (use Cons.prems(3) le in simp_all)
  qed
qed

lemma merge_splits_sums:
  assumes "merge_splits sp splits separator = Inr docs"
    and "\<forall>d \<in> set splits. int (length d) < chunk_size sp"
  shows "\<forall>c \<in> set docs. pieces_within sp separator c"
proof -
  from assms(1) obtain ds current tot where
    loop: "merge_loop sp separator splits ([], [], 0) = Inr (ds, current, tot)"
    and docs: "docs = add_doc ds (join_docs current separator)"
    by (auto simp: merge_splits_def split: sum.splits)
  from merge_loop_sums[OF loop assms(2)]
  have t: "tot = int (sum_list (map length current))"
    and c: "current = [] \<or> tot \<le> chunk_size sp"
    and d: "\<forall>c \<in> set ds. pieces_within sp separator c"
    by auto
  have "pieces_within sp separator x" if "join_docs current separator = Some x" for x
  proof -
    from that have x: "x = strip (join separator current)" "x \<noteq> []"
      by (auto simp: join_docs_def Let_def split: if_splits)
    then have "current \<noteq> []" by (auto simp: strip_def lstrip_def rstrip_def)
    with c t x(1) show ?thesis unfolding pieces_within_def by blast
  qed
  with d docs show ?thesis by (auto simp: add_doc_def split: option.splits)
qed

lemma choose_separator_member:
  assumes "choose_separator seps t = Inr separator"
  shows "separator \<in> set seps"
proof (cases "find (\<lambda>s. s = [] \<or> contains s t) seps")
  case None
  with assms show ?thesis
    by (auto simp: choose_separator_def split: if_splits)
next
  case (Some s)
  then obtain i where "i < length seps" "seps ! i = s" by (auto simp: find_Some_iff)
  then have "s \<in> set seps" by (metis nth_mem)
  with assms Some show ?thesis
    by (auto simp: choose_separator_def split: if_splits)
qed

lemma split_text_sums:
  "split_text n sp t = Some (Inr chunks) \<Longrightarrow>
     \<forall>c \<in> set chunks. \<exists>s \<in> set (separators sp). pieces_within sp s c"
  "split_pieces n sp separator ss (final_chunks, good_splits) = Some (Inr (fc, gs)) \<Longrightarrow>
   separator \<in> set (separators sp) \<Longrightarrow>
   \<forall>c \<in> set final_chunks. \<exists>s \<in> set (separators sp). pieces_within sp s c \<Longrightarrow>
   \<forall>g \<in> set good_splits. int (length g) < chunk_size sp \<Longrightarrow>
     (\<forall>c \<in> set fc. \<exists>s \<in> set (separators sp). pieces_within sp s c)
     \<and> (\<forall>g \<in> set gs. int (length g) < chunk_size sp)"
proof (induction n sp t and n sp separator ss "(final_chunks, good_splits)"
    arbitrary: chunks and final_chunks good_splits fc gs rule: split_text_split_pieces.induct)
  case (1 sp t)
  then show ?case by simp
next
  case (2 n sp t)
  show ?case
  proof (cases "t = []")
    case True
    with 2(2) show ?thesis by simp
  next
    case False
    with 2(2) obtain separator fc gs where
      sep: "choose_separator (separators sp) t = Inr separator"
      and pcs: "split_pieces n sp separator (raw_splits t separator) ([], []) = Some (Inr (fc, gs))"
      by (auto split: sum.splits option.splits prod.splits)
    note mem = choose_separator_member[OF sep]
    from 2(1)[OF False sep pcs mem]
    have fc: "\<forall>c \<in> set fc. \<exists>s \<in> set (separators sp). pieces_within sp s c"
      and gs: "\<forall>g \<in> set gs. int (length g) < chunk_size sp"
      by simp_all
    show ?thesis
    proof (cases "gs = []")
      case True
      with 2(2) False sep pcs fc show ?thesis by simp
    next
      case ne: False
      with 2(2) False sep pcs obtain ms where ms: "merge_splits sp gs separator = Inr ms"
        and ch: "chunks = fc @ ms"
        by (auto split: sum.splits)
      from merge_splits_sums[OF ms gs] mem fc ch show ?thesis by auto
    qed
  qed
next
  case (3 n sp separator)
  then show ?case by simp
next
  case (4 n sp separator s ss final_chunks good_splits)
  note mem = 4(5)
  show ?case
  proof (cases "int (length s) < chunk_size sp")
    case True
    with 4(4) have "split_pieces n sp separator ss (final_chunks, good_splits @ [s])
        = Some (Inr (fc, gs))"
      by simp
    from 4(1)[OF True this mem] 4(6,7) True show ?thesis by simp
  next
    case False
    obtain ms where ms: "(if good_splits \<noteq> [] then merge_splits sp good_splits separator
        else Inr []) = Inr ms"
      using 4(4) False by (auto split: sum.splits)
    with 4(4) False obtain cs where cs: "split_text n sp s = Some (Inr cs)"
      and loop: "split_pieces n sp separator ss (final_chunks @ ms @ cs, []) = Some (Inr (fc, gs))"
      by (auto split: sum.splits option.splits)
    have m: "\<forall>c \<in> set ms. \<exists>s \<in> set (separators sp). pieces_within sp s c"
    proof (cases "good_splits = []")
      case True
      with ms show ?thesis by simp
    next
      case ne: False
      with ms have "merge_splits sp good_splits separator = Inr ms" by simp
      from merge_splits_sums[OF this 4(7)] mem show ?thesis by blast
    qed
    from 4(2)[OF False ms cs]
    have c: "\<forall>c \<in> set cs. \<exists>s \<in> set (separators sp). pieces_within sp s c" .
    from 4(6) m c
    have "\<forall>c \<in> set (final_chunks @ ms @ cs). \<exists>s \<in> set (separators sp). pieces_within sp s c"
      by auto
    from 4(3)[OF False ms cs refl loop mem this] show ?thesis by simp
  qed
qed

lemma length_strip_le: "length (strip x) \<le> length x"
proof -
  have "length (lstrip (rstrip x)) \<le> length (rstrip x)"
    by (simp add: lstrip_def length_dropWhile_le)
  also have "length (rstrip x) = length (dropWhile is_space (rev x))"
    by (simp add: rstrip_def)
  also have "\<dots> \<le> length (rev x)" by (rule length_dropWhile_le)
  finally show ?thesis by (simp add: strip_def)
qed

lemma length_join_empty: "length (join [] current) = sum_list (map length current)"
  by (induction "[] :: string" current rule: join.induct) auto

lemma pieces_within_empty_separator:
  "pieces_within sp [] chunk \<Longrightarrow> int (length chunk) \<le> chunk_size sp"
proof -
  assume "pieces_within sp [] chunk"
  then obtain current where c: "chunk = strip (join [] current)"
    "int (sum_list (map length current)) \<le> chunk_size sp"
    unfolding pieces_within_def by blast
  have "length chunk \<le> sum_list (map length current)"
    using length_strip_le[of "join [] current"] by (simp add: c(1) length_join_empty)
  with c(2) show ?thesis by simp
qed

section \<open>The orchestrator: unfolding and induction\<close>

lemma heap_report [simp]: "heap (report obs a f s) = (heap s)[a := f (heap s ! a)]"
  by (simp add: report_def Let_def)

lemma world_report [simp]: "world (report obs a f s) = world s"
  by (simp add: report_def Let_def)

lemma observed_report [simp]:
  "observed (report obs a f s) = (if obs then observed s @ [(a, f (heap s ! a))] else observed s)"
  by (simp add: report_def Let_def)

lemma deep_research_unfold:
  "deep_research complete search obs topic breadth depth ls vs s =
     (case generate_serp_queries complete topic breadth ls (world s) of
        (Inl e, w) \<Rightarrow> (Inl e, s\<lparr>heap := heap s @ [new_progress breadth depth], world := w\<rparr>)
      | (Inr serp_queries, w) \<Rightarrow>
          (case research_loop complete search obs (length (heap s)) breadth depth ls vs
                  serp_queries [] (planned obs breadth depth serp_queries w s) of
             (Inl e, s2) \<Rightarrow> (Inl e, s2)
           | (Inr results, s2) \<Rightarrow> (Inr (merge_results results), s2)))"
  by (simp add: deep_research.simps Let_def planned_def split: prod.splits sum.splits)

lemma research_loop_Nil: "research_loop complete search obs a breadth depth ls vs [] results s = (Inr results, s)"
  by (simp add: research_loop.simps)

lemma research_loop_Cons:
  "research_loop complete search obs a breadth depth ls vs (q # qs) results s =
     (case search (world s) (query q) 5 of
        (Inl e, w) \<Rightarrow>
          research_loop complete search obs a breadth depth ls vs qs results (s\<lparr>world := w\<rparr>)
      | (Inr res, w) \<Rightarrow>
          (case process_serp_result complete (query q) res 3 (max 1 (breadth div 2)) w of
             (Inl e, w') \<Rightarrow> (Inl e, s\<lparr>world := w'\<rparr>)
           | (Inr (nl, fu), w') \<Rightarrow>
               if 0 < depth - 1 then
                 (case deep_research complete search obs (next_query q fu)
                         (max 1 (breadth div 2)) (depth - 1) (ls @ nl) (vs @ found_urls res)
                         (s\<lparr>world := w'\<rparr>) of
                    (Inl e, s2) \<Rightarrow> (Inl e, s2)
                  | (Inr sub_result, s2) \<Rightarrow>
                      research_loop complete search obs a breadth depth ls vs qs
                        (results @ [sub_result]) (counted obs a s2))
               else
                 research_loop complete search obs a breadth depth ls vs qs
                   (results @ [\<lparr>learnings = ls @ nl, visited_urls = vs @ found_urls res\<rparr>])
                   (counted obs a (s\<lparr>world := w'\<rparr>))))"
  by (simp add: research_loop.simps Let_def counted_def found_urls_def split: prod.splits sum.splits)

lemma research_induct:
  fixes complete :: "'w completion" and search :: "'w searcher" and obs :: bool
  assumes plan_fails: "\<And>topic breadth depth ls vs s e w.
      generate_serp_queries complete topic breadth ls (world s) = (Inl e, w) \<Longrightarrow>
      P topic breadth depth ls vs s (Inl e)
        (s\<lparr>heap := heap s @ [new_progress breadth depth], world := w\<rparr>)"
    and loop_fails: "\<And>topic breadth depth ls vs s serp_queries w e s'.
      generate_serp_queries complete topic breadth ls (world s) = (Inr serp_queries, w) \<Longrightarrow>
      research_loop complete search obs (length (heap s)) breadth depth ls vs serp_queries []
        (planned obs breadth depth serp_queries w s) = (Inl e, s') \<Longrightarrow>
      Q (length (heap s)) breadth depth ls vs serp_queries []
        (planned obs breadth depth serp_queries w s) (Inl e) s' \<Longrightarrow>
      P topic breadth depth ls vs s (Inl e) s'"
    and aggregated: "\<And>topic breadth depth ls vs s serp_queries w results s'.
      generate_serp_queries complete topic breadth ls (world s) = (Inr serp_queries, w) \<Longrightarrow>
      research_loop complete search obs (length (heap s)) breadth depth ls vs serp_queries []
        (planned obs breadth depth serp_queries w s) = (Inr results, s') \<Longrightarrow>
      Q (length (heap s)) breadth depth ls vs serp_queries []
        (planned obs breadth depth serp_queries w s) (Inr results) s' \<Longrightarrow>
      P topic breadth depth ls vs s (Inr (merge_results results)) s'"
    and finished: "\<And>a breadth depth ls vs results s.
      Q a breadth depth ls vs [] results s (Inr results) s"
    and skipped: "\<And>a breadth depth ls vs q qs results s e w r s'.
      search (world s) (query q) 5 = (Inl e, w) \<Longrightarrow>
      research_loop complete search obs a breadth depth ls vs qs results (s\<lparr>world := w\<rparr>) = (r, s') \<Longrightarrow>
      Q a breadth depth ls vs qs results (s\<lparr>world := w\<rparr>) r s' \<Longrightarrow>
      Q a breadth depth ls vs (q # qs) results s r s'"
    and extract_fails: "\<And>a breadth depth ls vs q qs results s res w e w'.
      search (world s) (query q) 5 = (Inr res, w) \<Longrightarrow>
      process_serp_result complete (query q) res 3 (max 1 (breadth div 2)) w = (Inl e, w') \<Longrightarrow>
      Q a breadth depth ls vs (q # qs) results s (Inl e) (s\<lparr>world := w'\<rparr>)"
    and child_fails: "\<And>a breadth depth ls vs q qs results s res w nl fu w' e s2.
      search (world s) (query q) 5 = (Inr res, w) \<Longrightarrow>
      process_serp_result complete (query q) res 3 (max 1 (breadth div 2)) w = (Inr (nl, fu), w') \<Longrightarrow>
      0 < depth - 1 \<Longrightarrow>
      deep_research complete search obs (next_query q fu) (max 1 (breadth div 2)) (depth - 1)
        (ls @ nl) (vs @ found_urls res) (s\<lparr>world := w'\<rparr>) = (Inl e, s2) \<Longrightarrow>
      P (next_query q fu) (max 1 (breadth div 2)) (depth - 1) (ls @ nl) (vs @ found_urls res)
        (s\<lparr>world := w'\<rparr>) (Inl e) s2 \<Longrightarrow>
      Q a breadth depth ls vs (q # qs) results s (Inl e) s2"
    and child: "\<And>a breadth depth ls vs q qs results s res w nl fu w' sub s2 r s'.
      search (world s) (query q) 5 = (Inr res, w) \<Longrightarrow>
      process_serp_result complete (query q) res 3 (max 1 (breadth div 2)) w = (Inr (nl, fu), w') \<Longrightarrow>
      0 < depth - 1 \<Longrightarrow>
      deep_research complete search obs (next_query q fu) (max 1 (breadth div 2)) (depth - 1)
        (ls @ nl) (vs @ found_urls res) (s\<lparr>world := w'\<rparr>) = (Inr sub, s2) \<Longrightarrow>
      P (next_query q fu) (max 1 (breadth div 2)) (depth - 1) (ls @ nl) (vs @ found_urls res)
        (s\<lparr>world := w'\<rparr>) (Inr sub) s2 \<Longrightarrow>
      research_loop complete search obs a breadth depth ls vs qs (results @ [sub])
        (counted obs a s2) = (r, s') \<Longrightarrow>
      Q a breadth depth ls vs qs (results @ [sub]) (counted obs a s2) r s' \<Longrightarrow>
      Q a breadth depth ls vs (q # qs) results s r s'"
    and leaf: "\<And>a breadth depth ls vs q qs results s res w nl fu w' r s'.
      search (world s) (query q) 5 = (Inr res, w) \<Longrightarrow>
      process_serp_result complete (query q) res 3 (max 1 (breadth div 2)) w = (Inr (nl, fu), w') \<Longrightarrow>
      \<not> 0 < depth - 1 \<Longrightarrow>
      research_loop complete search obs a breadth depth ls vs qs
        (results @ [\<lparr>learnings = ls @ nl, visited_urls = vs @ found_urls res\<rparr>])
        (counted obs a (s\<lparr>world := w'\<rparr>)) = (r, s') \<Longrightarrow>
      Q a breadth depth ls vs qs
        (results @ [\<lparr>learnings = ls @ nl, visited_urls = vs @ found_urls res\<rparr>])
        (counted obs a (s\<lparr>world := w'\<rparr>)) r s' \<Longrightarrow>
      Q a breadth depth ls vs (q # qs) results s r s'"
  shows "(deep_research complete search obs topic breadth depth ls vs s = (r, s')
            \<longrightarrow> P topic breadth depth ls vs s r s')
       \<and> (research_loop complete search obs a breadth0 depth0 ls0 vs0 qs results s0 = (r0, s0')
            \<longrightarrow> Q a breadth0 depth0 ls0 vs0 qs results s0 r0 s0')"
proof -
  have loop_step: "Q a breadth depth ls vs qs results s r s'"
    if child_ok: "\<And>topic ls' vs' s r s'. 0 < depth - 1 \<Longrightarrow>
          deep_research complete search obs topic (max 1 (breadth div 2)) (depth - 1) ls' vs' s
            = (r, s') \<Longrightarrow>
          P topic (max 1 (breadth div 2)) (depth - 1) ls' vs' s r s'"
      and run: "research_loop complete search obs a breadth depth ls vs qs results s = (r, s')"
    for a breadth depth ls vs qs results s r s'
    using run
  proof (induction qs arbitrary: results s)
    case Nil
    then have "r = Inr results" "s' = s" by (simp_all add: research_loop_Nil)
    then show ?case using finished by blast
  next
    case (Cons q qs)
    obtain x w where srch: "search (world s) (query q) 5 = (x, w)" by fastforce
    show ?case
    proof (cases x)
      case (Inl e)
      have loop: "research_loop complete search obs a breadth depth ls vs qs results
          (s\<lparr>world := w\<rparr>) = (r, s')"
        using Cons.prems srch Inl by (simp add: research_loop_Cons)
      from skipped[OF srch[unfolded Inl] loop Cons.IH[OF loop]] show ?thesis .
    next
      case (Inr res)
      obtain y w' where proc:
        "process_serp_result complete (query q) res 3 (max 1 (breadth div 2)) w = (y, w')"
        by fastforce
      show ?thesis
      proof (cases y)
        case (Inl e)
        with Cons.prems srch Inr proc have "r = Inl e" "s' = s\<lparr>world := w'\<rparr>"
          by (simp_all add: research_loop_Cons)
        with extract_fails[OF srch[unfolded Inr] proc[unfolded Inl]] show ?thesis by simp
      next
        case yy: (Inr lf)
        obtain nl fu where lf: "lf = (nl, fu)" by (cases lf)
        note proc' = proc[unfolded yy lf]
        show ?thesis
        proof (cases "0 < depth - 1")
          case True
          obtain x2 s2 where dr: "deep_research complete search obs (next_query q fu)
              (max 1 (breadth div 2)) (depth - 1) (ls @ nl) (vs @ found_urls res)
              (s\<lparr>world := w'\<rparr>) = (x2, s2)"
            by fastforce
          note p = child_ok[OF True dr]
          show ?thesis
          proof (cases x2)
            case (Inl e)
            with Cons.prems srch Inr proc' True dr have "r = Inl e" "s' = s2"
              by (simp_all add: research_loop_Cons)
            with child_fails[OF srch[unfolded Inr] proc' True dr[unfolded Inl] p[unfolded Inl]]
            show ?thesis by simp
          next
            case sub: (Inr sub_result)
            have loop: "research_loop complete search obs a breadth depth ls vs qs
                (results @ [sub_result]) (counted obs a s2) = (r, s')"
              using Cons.prems srch Inr proc' True dr sub by (simp add: research_loop_Cons)
            from child[OF srch[unfolded Inr] proc' True dr[unfolded sub] p[unfolded sub] loop
                Cons.IH[OF loop]]
            show ?thesis .
          qed
        next
          case False
          have loop: "research_loop complete search obs a breadth depth ls vs qs
              (results @ [\<lparr>learnings = ls @ nl, visited_urls = vs @ found_urls res\<rparr>])
              (counted obs a (s\<lparr>world := w'\<rparr>)) = (r, s')"
            using Cons.prems srch Inr proc' False by (simp add: research_loop_Cons)
          from leaf[OF srch[unfolded Inr] proc' False loop Cons.IH[OF loop]] show ?thesis .
        qed
      qed
    qed
  qed
  have call: "P topic breadth depth ls vs s r s'"
    if "deep_research complete search obs topic breadth depth ls vs s = (r, s')"
    for topic breadth depth ls vs s r s'
    using that
  proof (induction "nat depth" arbitrary: topic breadth depth ls vs s r s' rule: less_induct)
    case less
    have child_ok: "P topic' (max 1 (breadth div 2)) (depth - 1) ls' vs' t r' t'"
      if "0 < depth - 1"
        and "deep_research complete search obs topic' (max 1 (breadth div 2)) (depth - 1) ls' vs' t
               = (r', t')"
      for topic' ls' vs' t r' t'
      using less.hyps[of "depth - 1"] that by simp
    obtain x w where gen: "generate_serp_queries complete topic breadth ls (world s) = (x, w)"
      by fastforce
    show ?case
    proof (cases x)
      case (Inl e)
      with gen less.prems have "r = Inl e"
        "s' = s\<lparr>heap := heap s @ [new_progress breadth depth], world := w\<rparr>"
        by (simp_all add: deep_research_unfold)
      with plan_fails[OF gen[unfolded Inl]] show ?thesis by simp
    next
      case (Inr serp_queries)
      obtain rr where loop: "research_loop complete search obs (length (heap s)) breadth depth
          ls vs serp_queries [] (planned obs breadth depth serp_queries w s) = (rr, s')"
        using gen Inr less.prems
        by (auto simp: deep_research_unfold split: prod.splits sum.splits)
      note q = loop_step[OF child_ok loop]
      show ?thesis
      proof (cases rr)
        case (Inl e)
        with gen Inr loop less.prems have "r = Inl e" by (simp add: deep_research_unfold)
        with loop_fails[OF gen[unfolded Inr] loop[unfolded Inl] q[unfolded Inl]] show ?thesis
          by simp
      next
        case res: (Inr results)
        with gen Inr loop less.prems have "r = Inr (merge_results results)"
          by (simp add: deep_research_unfold)
        with aggregated[OF gen[unfolded Inr] loop[unfolded res] q[unfolded res]] show ?thesis
          by simp
      qed
    qed
  qed
  show ?thesis
    using call loop_step[OF call] by blast
qed

lemma heap_planned:
  "heap (planned obs breadth depth qs w s) =
     heap s @ [(new_progress breadth depth)\<lparr>total_queries := int (length qs),
                                           current_query := first_query qs\<rparr>]"
  by (simp add: planned_def)

lemma world_planned [simp]: "world (planned obs breadth depth qs w s) = w"
  by (simp add: planned_def)

lemma heap_counted:
  "heap (counted obs a s) =
     (heap s)[a := (heap s ! a)\<lparr>completed_queries := completed_queries (heap s ! a) + 1\<rparr>]"
  by (simp add: counted_def)

lemma heap_frame:
  fixes complete :: "'w completion"
  shows "(deep_research complete search obs topic breadth depth ls vs s = (r, s') \<longrightarrow>
     length (heap s) < length (heap s') \<and> (\<forall>i < length (heap s). heap s' ! i = heap s ! i))
  \<and> (research_loop complete search obs a breadth0 depth0 ls0 vs0 qs results s0 = (r0, s0') \<longrightarrow>
     a < length (heap s0) \<longrightarrow>
       length (heap s0) \<le> length (heap s0')
       \<and> (\<forall>i < length (heap s0). i \<noteq> a \<longrightarrow> heap s0' ! i = heap s0 ! i))"
proof (rule research_induct
    [where P = "\<lambda>topic breadth depth ls vs s r s'.
        length (heap s) < length (heap s') \<and> (\<forall>i < length (heap s). heap s' ! i = heap s ! i)"
     and Q = "\<lambda>a breadth depth ls vs qs results s r s'. a < length (heap s) \<longrightarrow>
       length (heap s) \<le> length (heap s')
       \<and> (\<forall>i < length (heap s). i \<noteq> a \<longrightarrow> heap s' ! i = heap s ! i)"], goal_cases)
  case (1 topic breadth depth ls vs s e w)
  then show ?case by (simp add: nth_append)
next
  case (2 topic breadth depth ls vs s serp_queries w e s')
  then show ?case by (auto simp add: heap_planned nth_append)
next
  case (3 topic breadth depth ls vs s serp_queries w results s')
  then show ?case by (auto simp add: heap_planned nth_append)
next
  case (4 a breadth depth ls vs results s)
  then show ?case by simp
next
  case (5 a breadth depth ls vs q qs results s e w r s')
  then show ?case by simp
next
  case (6 a breadth depth ls vs q qs results s res w e w')
  then show ?case by simp
next
  case (7 a breadth depth ls vs q qs results s res w nl fu w' e s2)
  then show ?case by auto
next
  case (8 a breadth depth ls vs q qs results s res w nl fu w' sub s2 r s')
  then show ?case by (auto simp: heap_counted)
next
  case (9 a breadth depth ls vs q qs results s res w nl fu w' r s')
  then show ?case by (auto simp: heap_counted)
qed


lemma deep_research_frame:
  "deep_research complete search obs topic breadth depth ls vs s = (r, s') \<Longrightarrow>
     length (heap s) < length (heap s') \<and> (\<forall>i < length (heap s). heap s' ! i = heap s ! i)"
  using heap_frame[of complete search obs topic breadth depth ls vs s r s'] by blast

lemma research_loop_frame:
  "research_loop complete search obs a breadth depth ls vs qs results s = (r, s') \<Longrightarrow>
   a < length (heap s) \<Longrightarrow>
     length (heap s) \<le> length (heap s')
     \<and> (\<forall>i < length (heap s). i \<noteq> a \<longrightarrow> heap s' ! i = heap s ! i)"
  using heap_frame[of complete search obs _ _ _ _ _ _ _ _ a breadth depth ls vs qs results s r s']
  by blast

lemma loop_counter:
  fixes complete :: "'w completion"
  shows "research_loop complete search obs a breadth depth ls vs qs results s = (r, s') \<Longrightarrow>
    a < length (heap s) \<Longrightarrow>
      total_queries (heap s' ! a) = total_queries (heap s ! a)
      \<and> (\<forall>results'. r = Inr results' \<longrightarrow>
            completed_queries (heap s' ! a) =
              completed_queries (heap s ! a) + (int (length results') - int (length results))
            \<and> length results \<le> length results'
            \<and> length results' \<le> length results + length qs)"
proof -
  let ?Q = "\<lambda>a (breadth::int) (depth::int) (ls::string list) (vs::string list)
      (qs::SerpQuery list) (results::ResearchResult list) (s::'w state)
      (r::error + ResearchResult list) (s'::'w state).
      a < length (heap s) \<longrightarrow>
      total_queries (heap s' ! a) = total_queries (heap s ! a)
      \<and> (\<forall>results'. r = Inr results' \<longrightarrow>
            completed_queries (heap s' ! a) =
              completed_queries (heap s ! a) + (int (length results') - int (length results))
            \<and> length results \<le> length results'
            \<and> length results' \<le> length results + length qs)"
  have "(deep_research complete search obs [] 0 0 [] [] s = (Inl IndexError, s) \<longrightarrow> True)
    \<and> (research_loop complete search obs a breadth depth ls vs qs results s = (r, s')
          \<longrightarrow> ?Q a breadth depth ls vs qs results s r s')"
  proof (rule research_induct[where P = "\<lambda>topic breadth depth ls vs s r s'. True" and Q = ?Q],
      goal_cases)
    case (1 topic breadth depth ls vs s e w)
    then show ?case by simp
  next
    case (2 topic breadth depth ls vs s serp_queries w e s')
    then show ?case by simp
  next
    case (3 topic breadth depth ls vs s serp_queries w results s')
    then show ?case by simp
  next
    case (4 a breadth depth ls vs results s)
    then show ?case by simp
  next
    case (5 a breadth depth ls vs q qs results s e w r s')
    then show ?case by auto
  next
    case (6 a breadth depth ls vs q qs results s res w e w')
    then show ?case by simp
  next
    case (7 a breadth depth ls vs q qs results s res w nl fu w' e s2)
    then show ?case using deep_research_frame[OF 7(4)] by auto
  next
    case (8 a breadth depth ls vs q qs results s res w nl fu w' sub s2 r s')
    show ?case
    proof
      assume a: "a < length (heap s)"
      from deep_research_frame[OF 8(4)] a
      have f: "a < length (heap s2)" "heap s2 ! a = heap s ! a" by auto
      from 8(7) f have "a < length (heap (counted obs a s2))" by (simp add: heap_counted)
      with 8(7) f show "total_queries (heap s' ! a) = total_queries (heap s ! a)
      \<and> (\<forall>results'. r = Inr results' \<longrightarrow>
            completed_queries (heap s' ! a) =
              completed_queries (heap s ! a) + (int (length results') - int (length results))
            \<and> length results \<le> length results'
            \<and> length results' \<le> length results + length (q # qs))"
        by (auto simp: heap_counted)
    qed
  next
    case (9 a breadth depth ls vs q qs results s res w nl fu w' r s')
    then show ?case by (auto simp: heap_counted)
  qed
  then show "research_loop complete search obs a breadth depth ls vs qs results s = (r, s') \<Longrightarrow>
    a < length (heap s) \<Longrightarrow>
      total_queries (heap s' ! a) = total_queries (heap s ! a)
      \<and> (\<forall>results'. r = Inr results' \<longrightarrow>
            completed_queries (heap s' ! a) =
              completed_queries (heap s ! a) + (int (length results') - int (length results))
            \<and> length results \<le> length results'
            \<and> length results' \<le> length results + length qs)"
    by blast
qed


section \<open>Progress accounting\<close>

text \<open>
  C1 (as amended).  Every call has its own progress record, at address \<open>a\<close>.  A query
  whose search raises is skipped with the record untouched; a query whose search
  succeeded and whose branch returned adds one result and increases \<open>completed_queries\<close>
  of the record by exactly one.  So after the loop the counter has grown by the number
  of results added, which is at most the number of planned queries, and at the end of a
  call \<open>completed_queries\<close> is the number of results, at most \<open>total_queries\<close>.
\<close>

theorem completed_queries_counts_successful_searches:
  "(search (world s) (query q) 5 = (Inl e, w) \<longrightarrow>
      research_loop complete search obs a breadth depth ls vs (q # qs) results s
        = research_loop complete search obs a breadth depth ls vs qs results (s\<lparr>world := w\<rparr>)
      \<and> heap (s\<lparr>world := w\<rparr>) = heap s)
   \<and> (search (world s1) (query q1) 5 = (Inr res, w1) \<and> a < length (heap s1)
      \<and> research_loop complete search obs a breadth depth ls vs (q1 # qs1) results1 s1
           = (Inr results', s1') \<longrightarrow>
      (\<exists>x s2. research_loop complete search obs a breadth depth ls vs qs1 (results1 @ [x])
                 (counted obs a s2) = (Inr results', s1')
         \<and> completed_queries (heap (counted obs a s2) ! a) = completed_queries (heap s1 ! a) + 1))
   \<and> (a < length (heap s1)
      \<and> research_loop complete search obs a breadth depth ls vs qs2 results1 s1
           = (Inr results', s1') \<longrightarrow>
      completed_queries (heap s1' ! a)
        = completed_queries (heap s1 ! a) + (int (length results') - int (length results1))
      \<and> length results1 \<le> length results' \<and> length results' \<le> length results1 + length qs2)
   \<and> (deep_research complete search obs topic breadth depth ls vs s0 = (Inr r, s0') \<longrightarrow>
      (\<exists>serp_queries w0 results0.
         generate_serp_queries complete topic breadth ls (world s0) = (Inr serp_queries, w0)
         \<and> research_loop complete search obs (length (heap s0)) breadth depth ls vs serp_queries []
              (planned obs breadth depth serp_queries w0 s0) = (Inr results0, s0')
         \<and> total_queries (heap s0' ! length (heap s0)) = int (length serp_queries)
         \<and> completed_queries (heap s0' ! length (heap s0)) = int (length results0)
         \<and> length results0 \<le> length serp_queries))"
proof (intro conjI impI)
  assume "search (world s) (query q) 5 = (Inl e, w)"
  then show "research_loop complete search obs a breadth depth ls vs (q # qs) results s
        = research_loop complete search obs a breadth depth ls vs qs results (s\<lparr>world := w\<rparr>)"
    by (simp add: research_loop_Cons)
next
  show "heap (s\<lparr>world := w\<rparr>) = heap s" by simp
next
  assume h: "search (world s1) (query q1) 5 = (Inr res, w1) \<and> a < length (heap s1)
      \<and> research_loop complete search obs a breadth depth ls vs (q1 # qs1) results1 s1
           = (Inr results', s1')"
  then have srch: "search (world s1) (query q1) 5 = (Inr res, w1)"
    and a: "a < length (heap s1)"
    and run: "research_loop complete search obs a breadth depth ls vs (q1 # qs1) results1 s1
           = (Inr results', s1')"
    by simp_all
  obtain y w' where proc:
    "process_serp_result complete (query q1) res 3 (max 1 (breadth div 2)) w1 = (y, w')"
    by fastforce
  from srch run proc obtain nl fu where y: "y = Inr (nl, fu)"
    by (cases y) (auto simp: research_loop_Cons)
  show "\<exists>x s2. research_loop complete search obs a breadth depth ls vs qs1 (results1 @ [x])
                 (counted obs a s2) = (Inr results', s1')
         \<and> completed_queries (heap (counted obs a s2) ! a) = completed_queries (heap s1 ! a) + 1"
  proof (cases "0 < depth - 1")
    case True
    obtain x2 s2 where dr: "deep_research complete search obs (next_query q1 fu)
        (max 1 (breadth div 2)) (depth - 1) (ls @ nl) (vs @ found_urls res)
        (s1\<lparr>world := w'\<rparr>) = (x2, s2)"
      by fastforce
    from srch run proc y True dr obtain sub where sub: "x2 = Inr sub"
      by (cases x2) (auto simp: research_loop_Cons)
    from deep_research_frame[OF dr] a
    have "a < length (heap s2)" "heap s2 ! a = heap s1 ! a" by auto
    then have "completed_queries (heap (counted obs a s2) ! a)
        = completed_queries (heap s1 ! a) + 1"
      by (simp add: heap_counted)
    moreover from srch run proc y True dr sub
    have "research_loop complete search obs a breadth depth ls vs qs1 (results1 @ [sub])
        (counted obs a s2) = (Inr results', s1')"
      by (simp add: research_loop_Cons)
    ultimately show ?thesis by blast
  next
    case False
    with srch run proc y
    have "research_loop complete search obs a breadth depth ls vs qs1
        (results1 @ [\<lparr>learnings = ls @ nl, visited_urls = vs @ found_urls res\<rparr>])
        (counted obs a (s1\<lparr>world := w'\<rparr>)) = (Inr results', s1')"
      by (simp add: research_loop_Cons)
    moreover have "completed_queries (heap (counted obs a (s1\<lparr>world := w'\<rparr>)) ! a)
        = completed_queries (heap s1 ! a) + 1"
      using a by (simp add: heap_counted)
    ultimately show ?thesis by blast
  qed
next
  assume h: "a < length (heap s1)
      \<and> research_loop complete search obs a breadth depth ls vs qs2 results1 s1
           = (Inr results', s1')"
  from loop_counter[of complete search obs a breadth depth ls vs qs2 results1 s1 "Inr results'" s1'] h
  show "completed_queries (heap s1' ! a)
        = completed_queries (heap s1 ! a) + (int (length results') - int (length results1))"
    "length results1 \<le> length results'" "length results' \<le> length results1 + length qs2"
    by auto
next
  assume run: "deep_research complete search obs topic breadth depth ls vs s0 = (Inr r, s0')"
  obtain x w0 where gen: "generate_serp_queries complete topic breadth ls (world s0) = (x, w0)"
    by fastforce
  from run gen obtain serp_queries where x: "x = Inr serp_queries"
    by (cases x) (auto simp: deep_research_unfold)
  obtain rr s2 where loop: "research_loop complete search obs (length (heap s0)) breadth depth ls vs
      serp_queries [] (planned obs breadth depth serp_queries w0 s0) = (rr, s2)"
    by fastforce
  from run gen x loop obtain results0 where rr: "rr = Inr results0" and s2: "s2 = s0'"
    by (cases rr) (auto simp: deep_research_unfold)
  have a: "length (heap s0) < length (heap (planned obs breadth depth serp_queries w0 s0))"
    by (simp add: heap_planned)
  from loop_counter[OF loop a] rr s2
  have "total_queries (heap s0' ! length (heap s0)) = int (length serp_queries)"
    "completed_queries (heap s0' ! length (heap s0)) = int (length results0)"
    "length results0 \<le> length serp_queries"
    by (auto simp: heap_planned new_progress_def)
  with gen x loop rr s2
  show "\<exists>serp_queries w0 results0.
         generate_serp_queries complete topic breadth ls (world s0) = (Inr serp_queries, w0)
         \<and> research_loop complete search obs (length (heap s0)) breadth depth ls vs serp_queries []
              (planned obs breadth depth serp_queries w0 s0) = (Inr results0, s0')
         \<and> total_queries (heap s0' ! length (heap s0)) = int (length serp_queries)
         \<and> completed_queries (heap s0' ! length (heap s0)) = int (length results0)
         \<and> length results0 \<le> length serp_queries"
    by blast
qed

theorem completed_queries_counts_successful_searches_witness:
  "stub_search (world planned4) (query qb) 5 = (Inl (ServiceError ''timeout''), 1)
   \<and> research_loop stub_complete stub_search True 0 4 1 [] [] [qb, qc, qd] [] planned4
       = research_loop stub_complete stub_search True 0 4 1 [] [] [qc, qd] []
           (planned4\<lparr>world := 1\<rparr>)
   \<and> research_loop stub_complete stub_search True 0 4 1 [] [] [qa, qb, qc, qd] [] planned4
       = (Inr results3, final4)
   \<and> deep_research stub_complete stub_search True ''topic'' 4 1 [] [] start
       = (Inr (merge_results results3), final4)
   \<and> completed_queries (heap planned4 ! 0) = 0
   \<and> completed_queries (heap final4 ! 0) = 3
   \<and> total_queries (heap final4 ! 0) = 4"
proof -
  have h1: "stub_search (world planned4) (query qb) 5 = (Inl (ServiceError ''timeout''), 1)"
    by code_simp
  have h2: "stub_search (world planned4) (query qa) 5
      = (Inr [\<lparr>url = ''http://alpha'', markdown = ''text''\<rparr>], 1)"
    by code_simp
  have a: "0 < length (heap planned4)" by code_simp
  have h3: "research_loop stub_complete stub_search True 0 4 1 [] [] [qa, qb, qc, qd] [] planned4
       = (Inr results3, final4)"
    by code_simp
  have h4: "deep_research stub_complete stub_search True ''topic'' 4 1 [] [] start
       = (Inr (merge_results results3), final4)"
    by code_simp
  have z: "completed_queries (heap planned4 ! 0) = 0" by code_simp
  note t = completed_queries_counts_successful_searches
    [where search = stub_search and complete = stub_complete and obs = True and a = 0
       and breadth = 4 and depth = 1 and ls = "[]" and vs = "[]"
       and s = planned4 and q = qb and qs = "[qc, qd]" and results = "[]"
       and e = "ServiceError ''timeout''" and w = 1
       and ?s1.0 = planned4 and ?q1.0 = qa and ?qs1.0 = "[qb, qc, qd]" and ?results1.0 = "[]"
       and res = "[\<lparr>url = ''http://alpha'', markdown = ''text''\<rparr>]" and ?w1.0 = 1
       and results' = results3 and s1' = final4 and ?qs2.0 = "[qa, qb, qc, qd]"
       and topic = "''topic''" and ?s0.0 = start and r = "merge_results results3"
       and s0' = final4]
  from t h1 have c1: "research_loop stub_complete stub_search True 0 4 1 [] [] [qb, qc, qd] [] planned4
       = research_loop stub_complete stub_search True 0 4 1 [] [] [qc, qd] []
           (planned4\<lparr>world := 1\<rparr>)"
    by blast
  from t h2 a h3 have c2: "\<exists>x s2. research_loop stub_complete stub_search True 0 4 1 [] []
        [qb, qc, qd] ([] @ [x]) (counted True 0 s2) = (Inr results3, final4)
      \<and> completed_queries (heap (counted True 0 s2) ! 0) = completed_queries (heap planned4 ! 0) + 1"
    by blast
  from t a h3 have c3: "completed_queries (heap final4 ! 0)
      = completed_queries (heap planned4 ! 0) + (int (length results3) - int (length ([]::ResearchResult list)))"
    by blast
  from t h4 have c4: "\<exists>serp_queries w0 results0.
      generate_serp_queries stub_complete ''topic'' 4 [] (world start) = (Inr serp_queries, w0)
      \<and> research_loop stub_complete stub_search True (length (heap start)) 4 1 [] [] serp_queries []
           (planned True 4 1 serp_queries w0 start) = (Inr results0, final4)
      \<and> total_queries (heap final4 ! length (heap start)) = int (length serp_queries)
      \<and> completed_queries (heap final4 ! length (heap start)) = int (length results0)
      \<and> length results0 \<le> length serp_queries"
    by blast
  have g: "generate_serp_queries stub_complete ''topic'' 4 [] (world start) = (Inr [qa, qb, qc, qd], 1)"
    by code_simp
  have l0: "length (heap start) = 0" by code_simp
  from c4 g have "total_queries (heap final4 ! 0) = 4" by (auto simp: l0)
  moreover from c3 z have "completed_queries (heap final4 ! 0) = 3" by (simp add: results3_def)
  ultimately show ?thesis using h1 c1 h3 h4 z by blast
qed


text \<open>
  The claim as stated fails: of four planned queries the search for \<open>beta\<close> raises, and
  the call ends with \<open>completed_queries = 3\<close>, not 4.
\<close>

theorem completed_queries_skips_failed_search_counterexample:
  "fst (generate_serp_queries stub_complete ''topic'' 4 [] (world start)) = Inr [qa, qb, qc, qd]
   \<and> fst (stub_search 1 (query qb) 5) = Inl (ServiceError ''timeout'')
   \<and> total_queries (heap (snd (deep_research stub_complete stub_search True ''topic'' 4 1 [] [] start)) ! 0) = 4
   \<and> completed_queries (heap (snd (deep_research stub_complete stub_search True ''topic'' 4 1 [] [] start)) ! 0) = 3"
  by code_simp


section \<open>Further lemmas on the orchestrator\<close>





lemma research_loop_all_fail:
  "all_searches_fail search (world s) qs \<Longrightarrow>
     \<exists>s'. research_loop complete search obs a breadth depth ls vs qs results s = (Inr results, s')"
proof (induction qs arbitrary: s)
  case Nil
  then show ?case by (simp add: research_loop_Nil)
next
  case (Cons q qs)
  then show ?case
    by (auto simp: research_loop_Cons split: prod.splits sum.splits)
qed

lemma first_seen_set [simp]: "set (first_seen xs) = set xs"
  by (induction xs rule: first_seen.induct) auto

lemma first_seen_distinct [simp]: "distinct (first_seen xs)"
  by (induction xs rule: first_seen.induct) auto



section \<open>The query planner\<close>

lemma parse_queries_map_filter:
  "parse_queries lines = map query_of_line (filter (\<lambda>l. strip l \<noteq> []) lines)"
  by (induction lines) (auto simp: query_of_line_def)

text \<open>
  C9.  When the completion service answers, the planner returns the queries of the
  non-blank lines of the response, in order, each with the stripped line as both query
  and research goal, cut by the slice \<open>[:num_queries]\<close>: for \<open>num_queries >= 0\<close> the first
  \<open>num_queries\<close> of them, so at most that many.  A response without a usable line gives
  the empty list, not an error.
\<close>

theorem planner_one_query_per_nonblank_line:
  "complete w (serp_prompt topic n ls) = (Inr response, w') \<longrightarrow>
     (\<exists>qs. generate_serp_queries complete topic n ls w = (Inr qs, w')
        \<and> qs = slice_to (map query_of_line (usable_lines response)) n
        \<and> (0 \<le> n \<longrightarrow> qs = take (nat n) (map query_of_line (usable_lines response))
                      \<and> length qs \<le> nat n)
        \<and> (\<forall>q \<in> set qs. query q = research_goal q \<and> query q \<noteq> []
              \<and> (\<exists>l \<in> set (splitlines response). query q = strip l))
        \<and> (usable_lines response = [] \<longrightarrow> qs = []))"
proof
  assume c: "complete w (serp_prompt topic n ls) = (Inr response, w')"
  let ?all = "map query_of_line (usable_lines response)"
  have gen: "generate_serp_queries complete topic n ls w = (Inr (slice_to ?all n), w')"
    using c by (simp add: generate_serp_queries_def parse_queries_map_filter usable_lines_def)
  have sub: "set (slice_to ?all n) \<subseteq> set ?all"
    by (auto simp: slice_to_def dest: in_set_takeD)
  have each: "query q = research_goal q \<and> query q \<noteq> []
      \<and> (\<exists>l \<in> set (splitlines response). query q = strip l)" if "q \<in> set ?all" for q
    using that by (auto simp: query_of_line_def usable_lines_def)
  have "0 \<le> n \<longrightarrow> slice_to ?all n = take (nat n) ?all \<and> length (slice_to ?all n) \<le> nat n"
    by (simp add: slice_to_def)
  moreover have "usable_lines response = [] \<longrightarrow> slice_to ?all n = []"
    by (simp add: slice_to_def)
  ultimately show "\<exists>qs. generate_serp_queries complete topic n ls w = (Inr qs, w')
        \<and> qs = slice_to (map query_of_line (usable_lines response)) n
        \<and> (0 \<le> n \<longrightarrow> qs = take (nat n) (map query_of_line (usable_lines response))
                      \<and> length qs \<le> nat n)
        \<and> (\<forall>q \<in> set qs. query q = research_goal q \<and> query q \<noteq> []
              \<and> (\<exists>l \<in> set (splitlines response). query q = strip l))
        \<and> (usable_lines response = [] \<longrightarrow> qs = [])"
    using gen sub each by blast
qed

theorem planner_one_query_per_nonblank_line_witness:
  "generate_serp_queries stub_complete ''topic'' 3 [] 0 = (Inr [qa, qb, qc], 1)
   \<and> length (usable_lines (''alpha'' @ [LF] @ ''beta'' @ [LF] @ [LF] @ '' gamma '' @ [LF] @ ''delta'')) = 4
   \<and> usable_lines [CHR '' '', LF, LF, CHR '' ''] = []
   \<and> generate_serp_queries blank_complete ''topic'' 3 [] 0 = (Inr [], 0)"
proof -
  let ?resp = "''alpha'' @ [LF] @ ''beta'' @ [LF] @ [LF] @ '' gamma '' @ [LF] @ ''delta''"
  have h1: "stub_complete 0 (serp_prompt ''topic'' 3 []) = (Inr ?resp, 1)" by code_simp
  have n: "(0::int) \<le> 3" by simp
  have v1: "take (nat 3) (map query_of_line (usable_lines ?resp)) = [qa, qb, qc]" by code_simp
  have u1: "length (usable_lines ?resp) = 4" by code_simp
  from planner_one_query_per_nonblank_line
    [where complete = stub_complete and w = 0 and topic = "''topic''" and n = 3 and ls = "[]"
       and response = ?resp and w' = 1] h1 n v1
  have c1: "generate_serp_queries stub_complete ''topic'' 3 [] 0 = (Inr [qa, qb, qc], 1)"
    by auto
  have h2: "blank_complete 0 (serp_prompt ''topic'' 3 []) = (Inr [CHR '' '', LF, LF, CHR '' ''], 0)"
    by (simp add: blank_complete_def)
  have u2: "usable_lines [CHR '' '', LF, LF, CHR '' ''] = []" by code_simp
  from planner_one_query_per_nonblank_line
    [where complete = blank_complete and w = 0 and topic = "''topic''" and n = 3 and ls = "[]"
       and response = "[CHR '' '', LF, LF, CHR '' '']" and w' = 0] h2 u2
  have c2: "generate_serp_queries blank_complete ''topic'' 3 [] 0 = (Inr [], 0)"
    by auto
  from c1 u1 u2 c2 show ?thesis by blast
qed


section \<open>Aggregation\<close>





text \<open>
  C10.  A node whose planner returns no query, or whose planned queries all fail in the
  search, returns the empty result whatever findings and sources it was given.
\<close>

theorem barren_node_returns_empty_result:
  "generate_serp_queries complete topic breadth ls (world s) = (Inr qs, w)
   \<and> all_searches_fail search w qs \<longrightarrow>
     fst (deep_research complete search obs topic breadth depth ls vs s)
       = Inr \<lparr>learnings = [], visited_urls = []\<rparr>"
proof
  assume h: "generate_serp_queries complete topic breadth ls (world s) = (Inr qs, w)
   \<and> all_searches_fail search w qs"
  then have g: "generate_serp_queries complete topic breadth ls (world s) = (Inr qs, w)"
    and f: "all_searches_fail search (world (planned obs breadth depth qs w s)) qs"
    by simp_all
  from research_loop_all_fail[OF f] obtain s' where
    "research_loop complete search obs (length (heap s)) breadth depth ls vs qs []
       (planned obs breadth depth qs w s) = (Inr [], s')"
    by blast
  with g show "fst (deep_research complete search obs topic breadth depth ls vs s)
       = Inr \<lparr>learnings = [], visited_urls = []\<rparr>"
    by (simp add: deep_research_unfold merge_results_def dict_fromkeys_def)
qed

theorem barren_node_returns_empty_result_witness:
  "all_searches_fail failing_search 1 [qa, qb]
   \<and> fst (deep_research stub_complete failing_search True ''topic'' 2 2 [''old''] [''u0''] start)
       = Inr \<lparr>learnings = [], visited_urls = []\<rparr>
   \<and> generate_serp_queries blank_complete ''topic'' 2 [''old''] (world start) = (Inr [], 0)
   \<and> fst (deep_research blank_complete stub_search True ''topic'' 2 2 [''old''] [''u0''] start)
       = Inr \<lparr>learnings = [], visited_urls = []\<rparr>"
proof -
  have g1: "generate_serp_queries stub_complete ''topic'' 2 [''old''] (world start)
      = (Inr [qa, qb], 1)"
    by code_simp
  have f1: "all_searches_fail failing_search 1 [qa, qb]" by code_simp
  have g2: "generate_serp_queries blank_complete ''topic'' 2 [''old''] (world start) = (Inr [], 0)"
    by code_simp
  have f2: "all_searches_fail stub_search 0 []" by simp
  from barren_node_returns_empty_result
    [where complete = stub_complete and search = failing_search and topic = "''topic''"
       and breadth = 2 and ls = "[''old'']" and s = start and qs = "[qa, qb]" and w = 1
       and obs = True and depth = 2 and vs = "[''u0'']"] g1 f1
  have c1: "fst (deep_research stub_complete failing_search True ''topic'' 2 2 [''old''] [''u0''] start)
       = Inr \<lparr>learnings = [], visited_urls = []\<rparr>"
    by blast
  from barren_node_returns_empty_result
    [where complete = blank_complete and search = stub_search and topic = "''topic''"
       and breadth = 2 and ls = "[''old'']" and s = start and qs = "[]" and w = 0
       and obs = True and depth = 2 and vs = "[''u0'']"] g2 f2
  have c2: "fst (deep_research blank_complete stub_search True ''topic'' 2 2 [''old''] [''u0''] start)
       = Inr \<lparr>learnings = [], visited_urls = []\<rparr>"
    by blast
  from f1 c1 g2 c2 show ?thesis by blast
qed

section \<open>Search failures\<close>





section \<open>What the observer is handed\<close>

lemma observed_planned:
  "observed (planned obs breadth depth qs w s) =
     (if obs then observed s @ [(length (heap s),
        (new_progress breadth depth)\<lparr>total_queries := int (length qs),
                                     current_query := first_query qs\<rparr>)]
      else observed s)"
  by (simp add: planned_def)

lemma observed_counted:
  "observed (counted obs a s) =
     (if obs then observed s @ [(a, (heap s ! a)\<lparr>completed_queries := completed_queries (heap s ! a) + 1\<rparr>)]
      else observed s)"
  by (simp add: counted_def)

lemma observed_frame:
  fixes complete :: "'w completion"
  shows "(deep_research complete search obs topic breadth depth ls vs s = (r, s') \<longrightarrow>
      total_depth (heap s' ! length (heap s)) = depth
      \<and> total_breadth (heap s' ! length (heap s)) = breadth
      \<and> (\<exists>new. observed s' = observed s @ new
            \<and> (\<forall>(a', p) \<in> set new.
                  (a' = length (heap s) \<and> total_depth p = depth \<and> total_breadth p = breadth)
                  \<or> (length (heap s) < a' \<and> total_depth p < depth))))
   \<and> (research_loop complete search obs a breadth0 depth0 ls0 vs0 qs results s0 = (r0, s0') \<longrightarrow>
      a < length (heap s0) \<longrightarrow>
      total_depth (heap s0' ! a) = total_depth (heap s0 ! a)
      \<and> total_breadth (heap s0' ! a) = total_breadth (heap s0 ! a)
      \<and> (\<exists>new. observed s0' = observed s0 @ new
            \<and> (\<forall>(a', p) \<in> set new.
                  (a' = a \<and> total_depth p = total_depth (heap s0 ! a)
                     \<and> total_breadth p = total_breadth (heap s0 ! a))
                  \<or> (length (heap s0) \<le> a' \<and> total_depth p < depth0))))"
proof (rule research_induct[where
      P = "\<lambda>topic breadth depth ls vs s r s'.
        total_depth (heap s' ! length (heap s)) = depth
        \<and> total_breadth (heap s' ! length (heap s)) = breadth
        \<and> (\<exists>new. observed s' = observed s @ new
            \<and> (\<forall>(a', p) \<in> set new.
                  (a' = length (heap s) \<and> total_depth p = depth \<and> total_breadth p = breadth)
                  \<or> (length (heap s) < a' \<and> total_depth p < depth)))"
      and Q = "\<lambda>a breadth depth ls vs qs results s r s'. a < length (heap s) \<longrightarrow>
        total_depth (heap s' ! a) = total_depth (heap s ! a)
        \<and> total_breadth (heap s' ! a) = total_breadth (heap s ! a)
        \<and> (\<exists>new. observed s' = observed s @ new
            \<and> (\<forall>(a', p) \<in> set new.
                  (a' = a \<and> total_depth p = total_depth (heap s ! a)
                     \<and> total_breadth p = total_breadth (heap s ! a))
                  \<or> (length (heap s) \<le> a' \<and> total_depth p < depth)))"], goal_cases)
  case (1 topic breadth depth ls vs s e w)
  then show ?case by (simp add: new_progress_def)
next
  case (2 topic breadth depth ls vs s serp_queries w e s')
  let ?s2 = "planned obs breadth depth serp_queries w s"
  let ?p0 = "(new_progress breadth depth)\<lparr>total_queries := int (length serp_queries),
                                     current_query := first_query serp_queries\<rparr>"
  have a: "length (heap s) < length (heap ?s2)" by (simp add: heap_planned)
  have td: "total_depth (heap ?s2 ! length (heap s)) = depth"
    "total_breadth (heap ?s2 ! length (heap s)) = breadth"
    "total_depth ?p0 = depth" "total_breadth ?p0 = breadth"
    "length (heap ?s2) = Suc (length (heap s))"
    by (simp_all add: heap_planned new_progress_def)
  from 2(3) a obtain new where n:
    "total_depth (heap s' ! length (heap s)) = total_depth (heap ?s2 ! length (heap s))"
    "total_breadth (heap s' ! length (heap s)) = total_breadth (heap ?s2 ! length (heap s))"
    "observed s' = observed ?s2 @ new"
    "\<forall>(a', p) \<in> set new.
        (a' = length (heap s) \<and> total_depth p = total_depth (heap ?s2 ! length (heap s))
           \<and> total_breadth p = total_breadth (heap ?s2 ! length (heap s)))
        \<or> (length (heap ?s2) \<le> a' \<and> total_depth p < depth)"
    by blast
  let ?first = "if obs then [(length (heap s), ?p0)] else []"
  have o: "observed s' = observed s @ (?first @ new)"
    using n(3) by (simp add: observed_planned)
  have "\<forall>(a', p) \<in> set (?first @ new).
      (a' = length (heap s) \<and> total_depth p = depth \<and> total_breadth p = breadth)
      \<or> (length (heap s) < a' \<and> total_depth p < depth)"
    using n(4) td by fastforce
  with o have "\<exists>new. observed s' = observed s @ new
      \<and> (\<forall>(a', p) \<in> set new.
            (a' = length (heap s) \<and> total_depth p = depth \<and> total_breadth p = breadth)
            \<or> (length (heap s) < a' \<and> total_depth p < depth))"
    by blast
  with n(1,2) td(1,2) show ?case by simp
next
  case (3 topic breadth depth ls vs s serp_queries w results s')
  let ?s2 = "planned obs breadth depth serp_queries w s"
  let ?p0 = "(new_progress breadth depth)\<lparr>total_queries := int (length serp_queries),
                                     current_query := first_query serp_queries\<rparr>"
  have a: "length (heap s) < length (heap ?s2)" by (simp add: heap_planned)
  have td: "total_depth (heap ?s2 ! length (heap s)) = depth"
    "total_breadth (heap ?s2 ! length (heap s)) = breadth"
    "total_depth ?p0 = depth" "total_breadth ?p0 = breadth"
    "length (heap ?s2) = Suc (length (heap s))"
    by (simp_all add: heap_planned new_progress_def)
  from 3(3) a obtain new where n:
    "total_depth (heap s' ! length (heap s)) = total_depth (heap ?s2 ! length (heap s))"
    "total_breadth (heap s' ! length (heap s)) = total_breadth (heap ?s2 ! length (heap s))"
    "observed s' = observed ?s2 @ new"
    "\<forall>(a', p) \<in> set new.
        (a' = length (heap s) \<and> total_depth p = total_depth (heap ?s2 ! length (heap s))
           \<and> total_breadth p = total_breadth (heap ?s2 ! length (heap s)))
        \<or> (length (heap ?s2) \<le> a' \<and> total_depth p < depth)"
    by blast
  let ?first = "if obs then [(length (heap s), ?p0)] else []"
  have o: "observed s' = observed s @ (?first @ new)"
    using n(3) by (simp add: observed_planned)
  have "\<forall>(a', p) \<in> set (?first @ new).
      (a' = length (heap s) \<and> total_depth p = depth \<and> total_breadth p = breadth)
      \<or> (length (heap s) < a' \<and> total_depth p < depth)"
    using n(4) td by fastforce
  with o have "\<exists>new. observed s' = observed s @ new
      \<and> (\<forall>(a', p) \<in> set new.
            (a' = length (heap s) \<and> total_depth p = depth \<and> total_breadth p = breadth)
            \<or> (length (heap s) < a' \<and> total_depth p < depth))"
    by blast
  with n(1,2) td(1,2) show ?case by simp
next
  case (4 a breadth depth ls vs results s)
  then show ?case by simp
next
  case (5 a breadth depth ls vs q qs results s e w r s')
  then show ?case by simp
next
  case (6 a breadth depth ls vs q qs results s res w e w')
  then show ?case by simp
next
  case (7 a breadth depth ls vs q qs results s res w nl fu w' e s2)
  show ?case
  proof
    assume a: "a < length (heap s)"
    from deep_research_frame[OF 7(4)] a
    have f: "heap s2 ! a = heap s ! a" by auto
    from 7(5) obtain new where n: "observed s2 = observed s @ new"
      "\<forall>(a', p) \<in> set new. (a' = length (heap s) \<and> total_depth p = depth - 1
            \<and> total_breadth p = max 1 (breadth div 2))
          \<or> (length (heap s) < a' \<and> total_depth p < depth - 1)"
      by auto
    from n(2) have "\<forall>(a', p) \<in> set new.
        (a' = a \<and> total_depth p = total_depth (heap s ! a)
           \<and> total_breadth p = total_breadth (heap s ! a))
        \<or> (length (heap s) \<le> a' \<and> total_depth p < depth)"
      by fastforce
    with n(1) f show "total_depth (heap s2 ! a) = total_depth (heap s ! a)
        \<and> total_breadth (heap s2 ! a) = total_breadth (heap s ! a)
        \<and> (\<exists>new. observed s2 = observed s @ new
            \<and> (\<forall>(a', p) \<in> set new.
                  (a' = a \<and> total_depth p = total_depth (heap s ! a)
                     \<and> total_breadth p = total_breadth (heap s ! a))
                  \<or> (length (heap s) \<le> a' \<and> total_depth p < depth)))"
      by auto
  qed
next
  case (8 a breadth depth ls vs q qs results s res w nl fu w' sub s2 r s')
  show ?case
  proof
    assume a: "a < length (heap s)"
    from deep_research_frame[OF 8(4)] a
    have f: "heap s2 ! a = heap s ! a" "a < length (heap s2)" "length (heap s) \<le> length (heap s2)"
      by auto
    from 8(5) obtain new1 where n1: "observed s2 = observed s @ new1"
      "\<forall>(a', p) \<in> set new1. (a' = length (heap s) \<and> total_depth p = depth - 1
            \<and> total_breadth p = max 1 (breadth div 2))
          \<or> (length (heap s) < a' \<and> total_depth p < depth - 1)"
      by auto
    from 8(7) f obtain new2 where n2:
      "total_depth (heap s' ! a) = total_depth (heap s ! a)"
      "total_breadth (heap s' ! a) = total_breadth (heap s ! a)"
      "observed s' = observed (counted obs a s2) @ new2"
      "\<forall>(a', p) \<in> set new2.
          (a' = a \<and> total_depth p = total_depth (heap s ! a)
             \<and> total_breadth p = total_breadth (heap s ! a))
          \<or> (length (heap s2) \<le> a' \<and> total_depth p < depth)"
      by (auto simp: heap_counted)
    let ?mid = "if obs then [(a, (heap s2 ! a)\<lparr>completed_queries := completed_queries (heap s2 ! a) + 1\<rparr>)] else []"
    have o: "observed s' = observed s @ (new1 @ ?mid @ new2)"
      using n1(1) n2(3) by (simp add: observed_counted)
    have "\<forall>(a', p) \<in> set (new1 @ ?mid @ new2).
        (a' = a \<and> total_depth p = total_depth (heap s ! a)
           \<and> total_breadth p = total_breadth (heap s ! a))
        \<or> (length (heap s) \<le> a' \<and> total_depth p < depth)"
      using n1(2) n2(4) f by fastforce
    with o n2(1,2) show "total_depth (heap s' ! a) = total_depth (heap s ! a)
        \<and> total_breadth (heap s' ! a) = total_breadth (heap s ! a)
        \<and> (\<exists>new. observed s' = observed s @ new
            \<and> (\<forall>(a', p) \<in> set new.
                  (a' = a \<and> total_depth p = total_depth (heap s ! a)
                     \<and> total_breadth p = total_breadth (heap s ! a))
                  \<or> (length (heap s) \<le> a' \<and> total_depth p < depth)))"
      by blast
  qed
next
  case (9 a breadth depth ls vs q qs results s res w nl fu w' r s')
  show ?case
  proof
    assume a: "a < length (heap s)"
    from 9(5) a obtain new2 where n2:
      "total_depth (heap s' ! a) = total_depth (heap s ! a)"
      "total_breadth (heap s' ! a) = total_breadth (heap s ! a)"
      "observed s' = observed (counted obs a (s\<lparr>world := w'\<rparr>)) @ new2"
      "\<forall>(a', p) \<in> set new2.
          (a' = a \<and> total_depth p = total_depth (heap s ! a)
             \<and> total_breadth p = total_breadth (heap s ! a))
          \<or> (length (heap s) \<le> a' \<and> total_depth p < depth)"
      by (auto simp: heap_counted)
    let ?mid = "if obs then [(a, (heap s ! a)\<lparr>completed_queries := completed_queries (heap s ! a) + 1\<rparr>)] else []"
    have o: "observed s' = observed s @ (?mid @ new2)"
      using n2(3) by (simp add: observed_counted)
    have "\<forall>(a', p) \<in> set (?mid @ new2).
        (a' = a \<and> total_depth p = total_depth (heap s ! a)
           \<and> total_breadth p = total_breadth (heap s ! a))
        \<or> (length (heap s) \<le> a' \<and> total_depth p < depth)"
      using n2(4) by fastforce
    with o n2(1,2) show "total_depth (heap s' ! a) = total_depth (heap s ! a)
        \<and> total_breadth (heap s' ! a) = total_breadth (heap s ! a)
        \<and> (\<exists>new. observed s' = observed s @ new
            \<and> (\<forall>(a', p) \<in> set new.
                  (a' = a \<and> total_depth p = total_depth (heap s ! a)
                     \<and> total_breadth p = total_breadth (heap s ! a))
                  \<or> (length (heap s) \<le> a' \<and> total_depth p < depth)))"
      by blast
  qed
qed

text \<open>
  C3 (as amended).  Every call creates a progress record of its own, initialised with its
  own depth and breadth.  A call never changes a record that existed when it started, so
  a nested call leaves its caller's record as it was; only the observer is shared.  What
  the observer is handed during a call is either the call's own record, with the call's
  total depth and breadth, or the record of a descendant, with a smaller total depth.
\<close>

theorem progress_record_is_per_call:
  "deep_research complete search obs topic breadth depth ls vs s = (r, s') \<longrightarrow>
     length (heap s) < length (heap s')
     \<and> (\<forall>i < length (heap s). heap s' ! i = heap s ! i)
     \<and> total_depth (heap s' ! length (heap s)) = depth
     \<and> total_breadth (heap s' ! length (heap s)) = breadth
     \<and> (\<exists>new. observed s' = observed s @ new
           \<and> (\<forall>(a, p) \<in> set new.
                 (a = length (heap s) \<and> total_depth p = depth \<and> total_breadth p = breadth)
                 \<or> (length (heap s) < a \<and> total_depth p < depth)))"
proof
  assume run: "deep_research complete search obs topic breadth depth ls vs s = (r, s')"
  from deep_research_frame[OF run]
    observed_frame[of complete search obs topic breadth depth ls vs s r s'] run
  show "length (heap s) < length (heap s')
     \<and> (\<forall>i < length (heap s). heap s' ! i = heap s ! i)
     \<and> total_depth (heap s' ! length (heap s)) = depth
     \<and> total_breadth (heap s' ! length (heap s)) = breadth
     \<and> (\<exists>new. observed s' = observed s @ new
           \<and> (\<forall>(a, p) \<in> set new.
                 (a = length (heap s) \<and> total_depth p = depth \<and> total_breadth p = breadth)
                 \<or> (length (heap s) < a \<and> total_depth p < depth)))"
    by blast
qed

theorem progress_record_is_per_call_witness:
  "length (heap child_start) = 1
   \<and> length (heap child_start) < length (heap child_final)
   \<and> heap child_final ! 0 = heap child_start ! 0
   \<and> total_depth (heap child_final ! 0) = 2
   \<and> total_depth (heap child_final ! length (heap child_start)) = 1
   \<and> total_breadth (heap child_final ! length (heap child_start)) = 1
   \<and> (\<exists>new. observed child_final = observed child_start @ new
         \<and> (\<forall>(a, p) \<in> set new.
               (a = length (heap child_start) \<and> total_depth p = 1 \<and> total_breadth p = 1)
               \<or> (length (heap child_start) < a \<and> total_depth p < 1)))"
proof -
  let ?run = "deep_research stub_complete stub_search True (next_query qa [''why?'']) 1 1
                [''finding 1''] [''http://alpha''] child_start"
  have h: "?run = (fst ?run, child_final)" by (simp add: child_final_def)
  have l: "length (heap child_start) = 1" by code_simp
  have d: "total_depth (heap child_start ! 0) = 2" by code_simp
  note t = progress_record_is_per_call
    [where complete = stub_complete and search = stub_search and obs = True
       and topic = "next_query qa [''why?'']" and breadth = 1 and depth = 1
       and ls = "[''finding 1'']" and vs = "[''http://alpha'']" and s = child_start
       and r = "fst ?run" and s' = child_final]
  from t h have c: "length (heap child_start) < length (heap child_final)"
    "\<forall>i < length (heap child_start). heap child_final ! i = heap child_start ! i"
    "total_depth (heap child_final ! length (heap child_start)) = 1"
    "total_breadth (heap child_final ! length (heap child_start)) = 1"
    "\<exists>new. observed child_final = observed child_start @ new
         \<and> (\<forall>(a, p) \<in> set new.
               (a = length (heap child_start) \<and> total_depth p = 1 \<and> total_breadth p = 1)
               \<or> (length (heap child_start) < a \<and> total_depth p < 1))"
    by blast+
  from c(2) l have "heap child_final ! 0 = heap child_start ! 0" by simp
  with c l d show ?thesis by simp
qed

text \<open>
  The claim as stated fails: in a run of depth 2 and breadth 2 the second snapshot handed
  to the observer belongs to another record (address 1) and carries total depth 1 and
  total breadth 1, not the root's 2 and 2; the child counts its completed query in its
  own record.
\<close>

theorem observer_sees_child_records_counterexample:
  "fst (observed final2 ! 0) = 0 \<and> total_depth (snd (observed final2 ! 0)) = 2
   \<and> total_breadth (snd (observed final2 ! 0)) = 2
   \<and> fst (observed final2 ! 1) = 1 \<and> total_depth (snd (observed final2 ! 1)) = 1
   \<and> total_breadth (snd (observed final2 ! 1)) = 1
   \<and> length (observed final2) = 4 \<and> length (heap final2) = 2
   \<and> completed_queries (heap final2 ! 1) = 1 \<and> completed_queries (heap final2 ! 0) = 1"
  by code_simp

section \<open>The parameters of the calls\<close>

lemma at_level_child: "at_level (max 1 (b div 2)) (d - 1) p i \<Longrightarrow> at_level b d p (Suc i)"
  by (simp add: at_level_def)

lemma research_loop_totals:
  "research_loop complete search obs a breadth depth ls vs qs results s = (r, s') \<Longrightarrow>
   a < length (heap s) \<Longrightarrow>
     total_depth (heap s' ! a) = total_depth (heap s ! a)
     \<and> total_breadth (heap s' ! a) = total_breadth (heap s ! a)"
  using observed_frame[of complete search obs _ _ _ _ _ _ _ _ a breadth depth ls vs qs results s r s']
  by blast

lemma call_levels:
  fixes complete :: "'w completion"
  shows "(deep_research complete search obs topic breadth depth ls vs s = (r, s') \<longrightarrow>
      (\<forall>j. length (heap s) \<le> j \<and> j < length (heap s') \<longrightarrow>
         (\<exists>i. at_level breadth depth (heap s' ! j) i
            \<and> ((i = 0) = (j = length (heap s)))
            \<and> (0 < i \<longrightarrow> 0 < total_depth (heap s' ! j)))))
   \<and> (research_loop complete search obs a breadth0 depth0 ls0 vs0 qs results s0 = (r0, s0') \<longrightarrow>
      a < length (heap s0) \<longrightarrow>
      (\<forall>j. length (heap s0) \<le> j \<and> j < length (heap s0') \<longrightarrow>
         (\<exists>i. at_level (max 1 (breadth0 div 2)) (depth0 - 1) (heap s0' ! j) i
            \<and> 0 < total_depth (heap s0' ! j)))
      \<and> (\<not> 0 < depth0 - 1 \<longrightarrow> length (heap s0') = length (heap s0)))"
proof (rule research_induct[where
      P = "\<lambda>topic breadth depth ls vs s r s'.
        \<forall>j. length (heap s) \<le> j \<and> j < length (heap s') \<longrightarrow>
         (\<exists>i. at_level breadth depth (heap s' ! j) i
            \<and> ((i = 0) = (j = length (heap s)))
            \<and> (0 < i \<longrightarrow> 0 < total_depth (heap s' ! j)))"
      and Q = "\<lambda>a breadth depth ls vs qs results s r s'. a < length (heap s) \<longrightarrow>
        (\<forall>j. length (heap s) \<le> j \<and> j < length (heap s') \<longrightarrow>
           (\<exists>i. at_level (max 1 (breadth div 2)) (depth - 1) (heap s' ! j) i
              \<and> 0 < total_depth (heap s' ! j)))
        \<and> (\<not> 0 < depth - 1 \<longrightarrow> length (heap s') = length (heap s))"], goal_cases)
  case (1 topic breadth depth ls vs s e w)
  have "at_level breadth depth (new_progress breadth depth) 0"
    by (simp add: at_level_def new_progress_def)
  then show ?case by (auto simp: nth_append less_Suc_eq)
next
  case (2 topic breadth depth ls vs s serp_queries w e s')
  let ?s2 = "planned obs breadth depth serp_queries w s"
  have a: "length (heap s) < length (heap ?s2)" and l: "length (heap ?s2) = Suc (length (heap s))"
    by (simp_all add: heap_planned)
  have own: "at_level breadth depth (heap s' ! length (heap s)) 0"
    using research_loop_totals[OF 2(2) a]
    by (simp add: at_level_def heap_planned new_progress_def)
  show ?case
  proof (intro allI impI)
    fix j assume j: "length (heap s) \<le> j \<and> j < length (heap s')"
    show "\<exists>i. at_level breadth depth (heap s' ! j) i
            \<and> ((i = 0) = (j = length (heap s)))
            \<and> (0 < i \<longrightarrow> 0 < total_depth (heap s' ! j))"
    proof (cases "j = length (heap s)")
      case True
      with own show ?thesis by auto
    next
      case False
      with j l have "length (heap ?s2) \<le> j \<and> j < length (heap s')" by simp
      with 2(3) a obtain i where "at_level (max 1 (breadth div 2)) (depth - 1) (heap s' ! j) i"
        "0 < total_depth (heap s' ! j)"
        by blast
      with False at_level_child show ?thesis by blast
    qed
  qed
next
  case (3 topic breadth depth ls vs s serp_queries w results s')
  let ?s2 = "planned obs breadth depth serp_queries w s"
  have a: "length (heap s) < length (heap ?s2)" and l: "length (heap ?s2) = Suc (length (heap s))"
    by (simp_all add: heap_planned)
  have own: "at_level breadth depth (heap s' ! length (heap s)) 0"
    using research_loop_totals[OF 3(2) a]
    by (simp add: at_level_def heap_planned new_progress_def)
  show ?case
  proof (intro allI impI)
    fix j assume j: "length (heap s) \<le> j \<and> j < length (heap s')"
    show "\<exists>i. at_level breadth depth (heap s' ! j) i
            \<and> ((i = 0) = (j = length (heap s)))
            \<and> (0 < i \<longrightarrow> 0 < total_depth (heap s' ! j))"
    proof (cases "j = length (heap s)")
      case True
      with own show ?thesis by auto
    next
      case False
      with j l have "length (heap ?s2) \<le> j \<and> j < length (heap s')" by simp
      with 3(3) a obtain i where "at_level (max 1 (breadth div 2)) (depth - 1) (heap s' ! j) i"
        "0 < total_depth (heap s' ! j)"
        by blast
      with False at_level_child show ?thesis by blast
    qed
  qed
next
  case (4 a breadth depth ls vs results s)
  then show ?case by auto
next
  case (5 a breadth depth ls vs q qs results s e w r s')
  then show ?case by simp
next
  case (6 a breadth depth ls vs q qs results s res w e w')
  then show ?case by auto
next
  case (7 a breadth depth ls vs q qs results s res w nl fu w' e s2)
  have child: "\<exists>i. at_level (max 1 (breadth div 2)) (depth - 1) (heap s2 ! j) i
      \<and> 0 < total_depth (heap s2 ! j)"
    if "length (heap s) \<le> j \<and> j < length (heap s2)" for j
  proof -
    from 7(5) that obtain i where i: "at_level (max 1 (breadth div 2)) (depth - 1) (heap s2 ! j) i"
      "0 < i \<longrightarrow> 0 < total_depth (heap s2 ! j)"
      by auto
    with 7(3) have "0 < total_depth (heap s2 ! j)" by (cases i) (auto simp: at_level_def)
    with i show ?thesis by blast
  qed
  with 7(3) show ?case by blast
next
  case (8 a breadth depth ls vs q qs results s res w nl fu w' sub s2 r s')
  show ?case
  proof
    assume a: "a < length (heap s)"
    from deep_research_frame[OF 8(4)] a
    have f: "a < length (heap s2)" "length (heap s) \<le> length (heap s2)" by auto
    then have a2: "a < length (heap (counted obs a s2))"
      and l2: "length (heap (counted obs a s2)) = length (heap s2)"
      by (simp_all add: heap_counted)
    note fr = research_loop_frame[OF 8(6) a2]
    have "\<exists>i. at_level (max 1 (breadth div 2)) (depth - 1) (heap s' ! j) i
        \<and> 0 < total_depth (heap s' ! j)"
      if j: "length (heap s) \<le> j \<and> j < length (heap s')" for j
    proof (cases "j < length (heap s2)")
      case True
      with j a have "heap s' ! j = heap s2 ! j"
        using fr l2 by (simp add: heap_counted)
      moreover from 8(5) j True obtain i where
        i: "at_level (max 1 (breadth div 2)) (depth - 1) (heap s2 ! j) i"
        "0 < i \<longrightarrow> 0 < total_depth (heap s2 ! j)"
        by auto
      moreover from i 8(3) have "0 < total_depth (heap s2 ! j)"
        by (cases i) (auto simp: at_level_def)
      ultimately show ?thesis by auto
    next
      case False
      with j l2 have "length (heap (counted obs a s2)) \<le> j \<and> j < length (heap s')" by simp
      with 8(7) a2 show ?thesis by blast
    qed
    with 8(3) show "(\<forall>j. length (heap s) \<le> j \<and> j < length (heap s') \<longrightarrow>
           (\<exists>i. at_level (max 1 (breadth div 2)) (depth - 1) (heap s' ! j) i
              \<and> 0 < total_depth (heap s' ! j)))
        \<and> (\<not> 0 < depth - 1 \<longrightarrow> length (heap s') = length (heap s))"
      by blast
  qed
next
  case (9 a breadth depth ls vs q qs results s res w nl fu w' r s')
  then show ?case by (auto simp: heap_counted)
qed

lemma level_breadth_ge1: "0 < i \<Longrightarrow> 1 \<le> level_breadth b i"
proof (induction i arbitrary: b)
  case 0
  then show ?case by simp
next
  case (Suc i)
  then show ?case by (cases i) auto
qed

lemma level_breadth_closed:
  "0 < i \<or> 1 \<le> b \<Longrightarrow> level_breadth b i = max 1 (b div 2 ^ i)"
proof (induction i arbitrary: b)
  case 0
  then show ?case by simp
next
  case (Suc i)
  have ih: "level_breadth (max 1 (b div 2)) i = max 1 (max 1 (b div 2) div 2 ^ i)"
    by (rule Suc.IH) simp
  have "max 1 (max 1 (b div 2) div 2 ^ i) = max 1 (b div 2 ^ Suc i)"
  proof (cases "1 \<le> b div 2")
    case True
    then have "max 1 (b div 2) = b div 2" by simp
    moreover have "b div 2 div 2 ^ i = b div 2 ^ Suc i"
      by (simp add: zdiv_zmult2_eq)
    ultimately show ?thesis by simp
  next
    case False
    then have b: "b \<le> 1" by simp
    have "(1::int) div 2 ^ i \<le> 1"
      by (metis div_by_1 one_le_numeral one_le_power zdiv_mono2 zero_less_one_class.zero_le_one zero_less_one)
    moreover have "b div 2 ^ Suc i \<le> 0"
    proof -
      have "b div 2 ^ Suc i \<le> 1 div 2 ^ Suc i" using b by (simp add: zdiv_mono1)
      also have "(1::int) div 2 ^ Suc i = 0"
      proof -
        have lt: "(1::int) < 2 ^ Suc i" by (rule one_less_power) simp_all
        show ?thesis by (rule div_pos_pos_trivial[OF _ lt]) simp
      qed
      finally show ?thesis .
    qed
    ultimately show ?thesis using False by (simp add: max_def)
  qed
  with ih show ?case by simp
qed


text \<open>
  C7.  A query whose search and extraction succeeded leads to a call with depth
  \<open>depth - 1\<close> and breadth \<open>max 1 (breadth div 2)\<close> exactly when \<open>depth - 1 > 0\<close>, and
  otherwise to a terminal result with the merged findings and sources; a loop with
  \<open>depth - 1 \<le> 0\<close> starts no call (it creates no record).  Every call creates one
  record with its depth and breadth, which are never written again, so the records
  created during a call are the calls below it: each is at some level \<open>i\<close>, with depth
  \<open>depth - i\<close> and breadth \<open>level_breadth breadth i\<close>, which is
  \<open>max 1 (breadth div 2 ^ i)\<close> for \<open>i > 0\<close> (and for \<open>i = 0\<close> when \<open>breadth \<ge> 1\<close>); below
  the root the depth is positive.
\<close>

theorem child_calls_shrink_breadth_and_depth:
  "(search (world s) (query q) 5 = (Inr res, w)
      \<and> process_serp_result complete (query q) res 3 (max 1 (breadth div 2)) w
          = (Inr (nl, fu), w') \<longrightarrow>
      research_loop complete search obs a breadth depth ls vs (q # qs) results s =
        (if 0 < depth - 1 then
           (case deep_research complete search obs (next_query q fu)
                   (max 1 (breadth div 2)) (depth - 1) (ls @ nl) (vs @ found_urls res)
                   (s\<lparr>world := w'\<rparr>) of
              (Inl e, s2) \<Rightarrow> (Inl e, s2)
            | (Inr sub_result, s2) \<Rightarrow>
                research_loop complete search obs a breadth depth ls vs qs
                  (results @ [sub_result]) (counted obs a s2))
         else
           research_loop complete search obs a breadth depth ls vs qs
             (results @ [\<lparr>learnings = ls @ nl, visited_urls = vs @ found_urls res\<rparr>])
             (counted obs a (s\<lparr>world := w'\<rparr>))))
   \<and> (a < length (heap s1) \<and> \<not> 0 < depth - 1
      \<and> research_loop complete search obs a breadth depth ls vs qs1 results1 s1 = (r1, s1')
      \<longrightarrow> length (heap s1') = length (heap s1))
   \<and> (deep_research complete search obs topic breadth depth ls vs s0 = (r0, s0') \<longrightarrow>
        (\<forall>j. length (heap s0) \<le> j \<and> j < length (heap s0') \<longrightarrow>
           (\<exists>i. ((i = 0) = (j = length (heap s0)))
              \<and> total_depth (heap s0' ! j) = depth - int i
              \<and> total_breadth (heap s0' ! j) = level_breadth breadth i
              \<and> (0 < i \<or> 1 \<le> breadth \<longrightarrow>
                    total_breadth (heap s0' ! j) = max 1 (breadth div 2 ^ i))
              \<and> (0 < i \<longrightarrow> 0 < total_depth (heap s0' ! j)))))"
proof (intro conjI impI allI)
  assume "search (world s) (query q) 5 = (Inr res, w)
      \<and> process_serp_result complete (query q) res 3 (max 1 (breadth div 2)) w
          = (Inr (nl, fu), w')"
  then show "research_loop complete search obs a breadth depth ls vs (q # qs) results s =
        (if 0 < depth - 1 then
           (case deep_research complete search obs (next_query q fu)
                   (max 1 (breadth div 2)) (depth - 1) (ls @ nl) (vs @ found_urls res)
                   (s\<lparr>world := w'\<rparr>) of
              (Inl e, s2) \<Rightarrow> (Inl e, s2)
            | (Inr sub_result, s2) \<Rightarrow>
                research_loop complete search obs a breadth depth ls vs qs
                  (results @ [sub_result]) (counted obs a s2))
         else
           research_loop complete search obs a breadth depth ls vs qs
             (results @ [\<lparr>learnings = ls @ nl, visited_urls = vs @ found_urls res\<rparr>])
             (counted obs a (s\<lparr>world := w'\<rparr>)))"
    by (simp add: research_loop_Cons)
next
  assume h: "a < length (heap s1) \<and> \<not> 0 < depth - 1
      \<and> research_loop complete search obs a breadth depth ls vs qs1 results1 s1 = (r1, s1')"
  then have a: "a < length (heap s1)" and d: "\<not> 0 < depth - 1"
    and loop: "research_loop complete search obs a breadth depth ls vs qs1 results1 s1 = (r1, s1')"
    by simp_all
  from call_levels[THEN conjunct2, THEN mp, OF loop, THEN mp, OF a, THEN conjunct2, THEN mp, OF d]
  show "length (heap s1') = length (heap s1)" .
next
  fix j
  assume run: "deep_research complete search obs topic breadth depth ls vs s0 = (r0, s0')"
    and j: "length (heap s0) \<le> j \<and> j < length (heap s0')"
  from call_levels[THEN conjunct1, THEN mp, OF run, THEN spec, THEN mp, OF j]
  obtain i where i: "at_level breadth depth (heap s0' ! j) i" "(i = 0) = (j = length (heap s0))"
    "0 < i \<longrightarrow> 0 < total_depth (heap s0' ! j)"
    by (elim exE conjE)
  from i(1) level_breadth_closed[of i breadth]
  have "0 < i \<or> 1 \<le> breadth \<longrightarrow> total_breadth (heap s0' ! j) = max 1 (breadth div 2 ^ i)"
    by (auto simp: at_level_def)
  then have "((i = 0) = (j = length (heap s0)))
              \<and> total_depth (heap s0' ! j) = depth - int i
              \<and> total_breadth (heap s0' ! j) = level_breadth breadth i
              \<and> (0 < i \<or> 1 \<le> breadth \<longrightarrow>
                    total_breadth (heap s0' ! j) = max 1 (breadth div 2 ^ i))
              \<and> (0 < i \<longrightarrow> 0 < total_depth (heap s0' ! j))"
    using i by (simp add: at_level_def)
  then show "\<exists>i. ((i = 0) = (j = length (heap s0)))
              \<and> total_depth (heap s0' ! j) = depth - int i
              \<and> total_breadth (heap s0' ! j) = level_breadth breadth i
              \<and> (0 < i \<or> 1 \<le> breadth \<longrightarrow>
                    total_breadth (heap s0' ! j) = max 1 (breadth div 2 ^ i))
              \<and> (0 < i \<longrightarrow> 0 < total_depth (heap s0' ! j))"
    by (rule exI)
qed

theorem child_calls_shrink_breadth_and_depth_witness:
  "stub_search (world planned2) (query qa) 5 = (Inr res_alpha, 1)
   \<and> process_serp_result stub_complete (query qa) res_alpha 3 (max 1 (2 div 2)) 1
       = (Inr ([''finding 1''], [''why?'']), 2)
   \<and> research_loop stub_complete stub_search True 0 2 2 [] [] [qa, qb] [] planned2
       = research_loop stub_complete stub_search True 0 2 2 [] [] [qb]
           [\<lparr>learnings = [''finding 1'', ''finding 3''], visited_urls = [''http://alpha'']\<rparr>]
           (counted True 0 child_final)
   \<and> length (heap final4) = length (heap planned4)
   \<and> (\<exists>i. ((i = 0) = (1 = length (heap start)))
         \<and> total_depth (heap final2 ! 1) = 2 - int i
         \<and> total_breadth (heap final2 ! 1) = max 1 (2 div 2 ^ i)
         \<and> 0 < total_depth (heap final2 ! 1))
   \<and> total_depth (heap final2 ! 1) = 1 \<and> total_breadth (heap final2 ! 1) = 1"
proof -
  have h1: "stub_search (world planned2) (query qa) 5 = (Inr res_alpha, 1)" by code_simp
  have h2: "process_serp_result stub_complete (query qa) res_alpha 3 (max 1 (2 div 2)) 1
       = (Inr ([''finding 1''], [''why?'']), 2)"
    by code_simp
  have child: "deep_research stub_complete stub_search True (next_query qa [''why?''])
        (max 1 (2 div 2)) (2 - 1) ([] @ [''finding 1'']) ([] @ found_urls res_alpha)
        (planned2\<lparr>world := 2\<rparr>)
      = (Inr \<lparr>learnings = [''finding 1'', ''finding 3''], visited_urls = [''http://alpha'']\<rparr>,
         child_final)"
    by code_simp
  note t2 = child_calls_shrink_breadth_and_depth
    [where search = stub_search and complete = stub_complete and obs = True and a = 0
       and breadth = 2 and depth = 2 and ls = "[]" and vs = "[]"
       and s = planned2 and q = qa and qs = "[qb]" and results = "[]" and res = res_alpha
       and w = 1 and nl = "[''finding 1'']" and fu = "[''why?'']" and w' = 2
       and topic = "''topic''" and ?s0.0 = start
       and ?r0.0 = "fst (deep_research stub_complete stub_search True ''topic'' 2 2 [] [] start)"
       and s0' = final2]
  from t2 h1 h2 have "research_loop stub_complete stub_search True 0 2 2 [] [] (qa # [qb]) [] planned2 =
        (if (0::int) < 2 - 1 then
           (case deep_research stub_complete stub_search True (next_query qa [''why?''])
                   (max 1 (2 div 2)) (2 - 1) ([] @ [''finding 1'']) ([] @ found_urls res_alpha)
                   (planned2\<lparr>world := 2\<rparr>) of
              (Inl e, s2) \<Rightarrow> (Inl e, s2)
            | (Inr sub_result, s2) \<Rightarrow>
                research_loop stub_complete stub_search True 0 2 2 [] [] [qb]
                  ([] @ [sub_result]) (counted True 0 s2))
         else
           research_loop stub_complete stub_search True 0 2 2 [] [] [qb]
             ([] @ [\<lparr>learnings = [] @ [''finding 1''], visited_urls = [] @ found_urls res_alpha\<rparr>])
             (counted True 0 (planned2\<lparr>world := 2\<rparr>)))"
    by blast
  then have c1: "research_loop stub_complete stub_search True 0 2 2 [] [] [qa, qb] [] planned2
       = research_loop stub_complete stub_search True 0 2 2 [] [] [qb]
           [\<lparr>learnings = [''finding 1'', ''finding 3''], visited_urls = [''http://alpha'']\<rparr>]
           (counted True 0 child_final)"
    unfolding child by simp
  have run2: "deep_research stub_complete stub_search True ''topic'' 2 2 [] [] start
      = (fst (deep_research stub_complete stub_search True ''topic'' 2 2 [] [] start), final2)"
    by (simp add: final2_def)
  have j: "length (heap start) \<le> 1 \<and> 1 < length (heap final2)" by code_simp
  note t3 = t2[THEN conjunct2, THEN conjunct2, THEN mp, OF run2, THEN spec, of 1, THEN mp, OF j]
  from t3 obtain i where i: "(i = 0) = (1 = length (heap start))"
    "total_depth (heap final2 ! 1) = 2 - int i"
    "0 < i \<or> (1::int) \<le> 2 \<longrightarrow> total_breadth (heap final2 ! 1) = max 1 (2 div 2 ^ i)"
    "0 < i \<longrightarrow> 0 < total_depth (heap final2 ! 1)"
    by (elim exE conjE)
  have "i \<noteq> 0" using i(1) by (simp add: start_def)
  with i have c3: "\<exists>i. ((i = 0) = (1 = length (heap start)))
         \<and> total_depth (heap final2 ! 1) = 2 - int i
         \<and> total_breadth (heap final2 ! 1) = max 1 (2 div 2 ^ i)
         \<and> 0 < total_depth (heap final2 ! 1)"
    by auto
  have a4: "0 < length (heap planned4)" by code_simp
  have d4: "\<not> (0::int) < 1 - 1" by simp
  have h3: "research_loop stub_complete stub_search True 0 4 1 [] [] [qa, qb, qc, qd] [] planned4
       = (Inr results3, final4)"
    by code_simp
  from child_calls_shrink_breadth_and_depth
    [where search = stub_search and complete = stub_complete and obs = True and a = 0
       and breadth = 4 and depth = 1 and ls = "[]" and vs = "[]"
       and ?s1.0 = planned4 and ?qs1.0 = "[qa, qb, qc, qd]" and ?results1.0 = "[]"
       and ?r1.0 = "Inr results3" and s1' = final4] a4 d4 h3
  have c2: "length (heap final4) = length (heap planned4)" by blast
  have v: "total_depth (heap final2 ! 1) = 1 \<and> total_breadth (heap final2 ! 1) = 1" by code_simp
  from v have v1: "total_depth (heap final2 ! 1) = 1" and v2: "total_breadth (heap final2 ! 1) = 1"
    by simp_all
  show ?thesis
    by (intro conjI) (rule h1 h2 c1 c2 c3 v1 v2)+
qed

end
